theory Spec2Isabelle
  imports Complex_Main
begin

section \<open>Regular expressions as used by \<open>blast/tasks.py\<close>\<close>

text \<open>
  The regular expressions of \<open>tasks.py\<close> are flat sequences: single characters and
  character classes (possibly quantified), capture groups around a stretch of the
  sequence, and the anchors \<open>^\<close> and \<open>$\<close>. None has an alternative or a quantified
  group. They are embedded as lists of items and run by a backtracking matcher with the
  priorities of Python's \<open>re\<close>: a greedy quantifier takes the longest run first and gives
  characters back one at a time, a lazy one takes the shortest run first.

  Strings are lists of 8-bit characters. The classes are those of Python 2 patterns
  compiled without \<open>re.UNICODE\<close> (the code base is Python 2): \<open>\s\<close> is
  \<open>[ \t\n\r\f\v]\<close>, \<open>\d\<close> is \<open>[0-9]\<close>, \<open>\w\<close> is \<open>[a-zA-Z0-9_]\<close>, and \<open>.\<close> is any character
  but the newline.
\<close>

datatype cls = CChar char | CNotChar char | CAny | CSpace | CNotSpace | CDigit | CWord

datatype item = One cls | Star cls | Plus cls | LazyPlus cls | LazyStar cls
  | Open nat | Close nat | Bol | Eol

type_synonym caps = "(nat \<times> string) list"

definition is_upper :: "char \<Rightarrow> bool" where
  "is_upper c = (65 \<le> (of_char c :: nat) \<and> (of_char c :: nat) \<le> 90)"

definition is_lower :: "char \<Rightarrow> bool" where
  "is_lower c = (97 \<le> (of_char c :: nat) \<and> (of_char c :: nat) \<le> 122)"

definition is_digit :: "char \<Rightarrow> bool" where
  "is_digit c = (48 \<le> (of_char c :: nat) \<and> (of_char c :: nat) \<le> 57)"

definition is_space :: "char \<Rightarrow> bool" where
  "is_space c = (c = CHR '' '' \<or> (9 \<le> (of_char c :: nat) \<and> (of_char c :: nat) \<le> 13))"

definition is_word :: "char \<Rightarrow> bool" where
  "is_word c = (is_lower c \<or> is_upper c \<or> is_digit c \<or> c = CHR ''_'')"

definition lower :: "char \<Rightarrow> char" where
  "lower c = (if is_upper c then char_of ((of_char c :: nat) + 32) else c)"

text \<open>\<open>in_cls ic k c\<close>: the character \<open>c\<close> is in the class \<open>k\<close>; \<open>ic\<close> is the flag
  \<open>(?i)\<close>, under which a literal character matches in either case.\<close>

fun in_cls :: "bool \<Rightarrow> cls \<Rightarrow> char \<Rightarrow> bool" where
  "in_cls ic (CChar d) c = (if ic then lower c = lower d else c = d)"
| "in_cls ic (CNotChar d) c = (c \<noteq> d)"
| "in_cls ic CAny c = (c \<noteq> CHR 0x0A)"
| "in_cls ic CSpace c = is_space c"
| "in_cls ic CNotSpace c = (\<not> is_space c)"
| "in_cls ic CDigit c = is_digit c"
| "in_cls ic CWord c = is_word c"

text \<open>
  \<open>rmatch ic k bol s os cs\<close> matches the items \<open>k\<close> at the front of \<open>s\<close>. \<open>bol\<close> says
  that \<open>s\<close> starts at the beginning of the subject string, \<open>os\<close> holds the text that
  remained when each group was opened and \<open>cs\<close> the groups closed so far. The result is
  the text left after the match, with the groups.
\<close>

fun rmatch :: "bool \<Rightarrow> item list \<Rightarrow> bool \<Rightarrow> string \<Rightarrow> caps \<Rightarrow> caps \<Rightarrow> (string \<times> caps) option" where
  "rmatch ic [] bol s os cs = Some (s, cs)"
| "rmatch ic (One p # k) bol [] os cs = None"
| "rmatch ic (One p # k) bol (x # xs) os cs =
     (if in_cls ic p x then rmatch ic k False xs os cs else None)"
| "rmatch ic (Star p # k) bol [] os cs = rmatch ic k bol [] os cs"
| "rmatch ic (Star p # k) bol (x # xs) os cs =
     (if in_cls ic p x
      then (case rmatch ic (Star p # k) False xs os cs of
              Some r \<Rightarrow> Some r
            | None \<Rightarrow> rmatch ic k bol (x # xs) os cs)
      else rmatch ic k bol (x # xs) os cs)"
| "rmatch ic (Plus p # k) bol [] os cs = None"
| "rmatch ic (Plus p # k) bol (x # xs) os cs =
     (if in_cls ic p x then rmatch ic (Star p # k) False xs os cs else None)"
| "rmatch ic (LazyPlus p # k) bol [] os cs = None"
| "rmatch ic (LazyPlus p # k) bol (x # xs) os cs =
     (if in_cls ic p x then rmatch ic (LazyStar p # k) False xs os cs else None)"
| "rmatch ic (LazyStar p # k) bol [] os cs = rmatch ic k bol [] os cs"
| "rmatch ic (LazyStar p # k) bol (x # xs) os cs =
     (case rmatch ic k bol (x # xs) os cs of
        Some r \<Rightarrow> Some r
      | None \<Rightarrow> (if in_cls ic p x then rmatch ic (LazyStar p # k) False xs os cs else None))"
| "rmatch ic (Open n # k) bol s os cs = rmatch ic k bol s ((n, s) # os) cs"
| "rmatch ic (Close n # k) bol s os cs =
     (case map_of os n of
        None \<Rightarrow> None
      | Some t \<Rightarrow> rmatch ic k bol s os ((n, take (length t - length s) t) # cs))"
| "rmatch ic (Bol # k) bol s os cs = (if bol then rmatch ic k bol s os cs else None)"
| "rmatch ic (Eol # k) bol s os cs =
     (if s = [] \<or> s = [CHR 0x0A] then rmatch ic k bol s os cs else None)"

text \<open>A match object: the text before the match, the matched text, the text after it,
  and the groups.\<close>

record rmatched =
  m_pre :: string
  m_text :: string
  m_post :: string
  m_caps :: caps

text \<open>\<open>m.group(n)\<close>. Every group of a flat pattern takes part in every match, so the
  \<open>None\<close> that Python gives for a group that did not take part never arises.\<close>

definition group :: "rmatched \<Rightarrow> nat \<Rightarrow> string" where
  "group m n = (case map_of (m_caps m) n of Some g \<Rightarrow> g | None \<Rightarrow> [])"

text \<open>\<open>re.search\<close>: the match at the leftmost position that has one.\<close>

fun rsearch :: "bool \<Rightarrow> item list \<Rightarrow> bool \<Rightarrow> string \<Rightarrow> rmatched option" where
  "rsearch ic k bol [] =
     (case rmatch ic k bol [] [] [] of
        Some (r, cs) \<Rightarrow> Some \<lparr>m_pre = [], m_text = [], m_post = [], m_caps = cs\<rparr>
      | None \<Rightarrow> None)"
| "rsearch ic k bol (x # xs) =
     (case rmatch ic k bol (x # xs) [] [] of
        Some (r, cs) \<Rightarrow>
          Some \<lparr>m_pre = [], m_text = take (length (x # xs) - length r) (x # xs),
                m_post = r, m_caps = cs\<rparr>
      | None \<Rightarrow>
         (case rsearch ic k False xs of
            Some m \<Rightarrow> Some (m\<lparr>m_pre := x # m_pre m\<rparr>)
          | None \<Rightarrow> None))"

definition re_search :: "bool \<Rightarrow> item list \<Rightarrow> string \<Rightarrow> rmatched option" where
  "re_search ic k s = rsearch ic k True s"

text \<open>\<open>re.match\<close>: a match at the start of the string only.\<close>

definition re_match :: "bool \<Rightarrow> item list \<Rightarrow> string \<Rightarrow> bool" where
  "re_match ic k s = (rmatch ic k True s [] [] \<noteq> None)"


subsection \<open>What a match consumes\<close>

text \<open>The classes whose characters an item can consume, and the characters a pattern
  can consume at all.\<close>

fun item_cls :: "item \<Rightarrow> cls set" where
  "item_cls (One p) = {p}"
| "item_cls (Star p) = {p}"
| "item_cls (Plus p) = {p}"
| "item_cls (LazyPlus p) = {p}"
| "item_cls (LazyStar p) = {p}"
| "item_cls _ = {}"

definition consumable :: "bool \<Rightarrow> item list \<Rightarrow> char \<Rightarrow> bool" where
  "consumable ic k x = (\<exists>i \<in> set k. \<exists>p \<in> item_cls i. in_cls ic p x)"

lemma consumable_Cons:
  "consumable ic k x \<Longrightarrow> consumable ic (i # k) x"
  "in_cls ic p x \<Longrightarrow> p \<in> item_cls i \<Longrightarrow> consumable ic (i # k) x"
  by (auto simp: consumable_def)

lemma consumable_Star_Plus:
  "consumable ic (Star p # k) x \<Longrightarrow> consumable ic (Plus p # k) x"
  "consumable ic (LazyStar p # k) x \<Longrightarrow> consumable ic (LazyPlus p # k) x"
  by (auto simp: consumable_def)

lemma rmatch_consumed:
  "rmatch ic k bol s os cs = Some (r, cs') \<Longrightarrow>
     \<exists>t. s = t @ r \<and> (\<forall>x \<in> set t. consumable ic k x)"
proof (induction ic k bol s os cs arbitrary: r cs' rule: rmatch.induct)
  case (3 ic p k bol x xs os cs)
  then have c: "in_cls ic p x" and m: "rmatch ic k False xs os cs = Some (r, cs')"
    by (simp_all split: if_splits)
  from 3(1)[OF c m] obtain t where "xs = t @ r" "\<forall>x \<in> set t. consumable ic k x" by blast
  then have "x # xs = (x # t) @ r \<and> (\<forall>y \<in> set (x # t). consumable ic (One p # k) y)"
    using c by (auto intro: consumable_Cons)
  then show ?case by blast
next
  case (5 ic p k bol x xs os cs)
  show ?case
  proof (cases "in_cls ic p x \<and> rmatch ic (Star p # k) False xs os cs \<noteq> None")
    case True
    with 5(4) have c: "in_cls ic p x" and m: "rmatch ic (Star p # k) False xs os cs = Some (r, cs')"
      by auto
    from 5(1)[OF c m] obtain t where "xs = t @ r" "\<forall>x \<in> set t. consumable ic (Star p # k) x" by blast
    then have "x # xs = (x # t) @ r \<and> (\<forall>y \<in> set (x # t). consumable ic (Star p # k) y)"
      using c by (auto intro: consumable_Cons)
    then show ?thesis by blast
  next
    case False
    with 5(4) have m: "rmatch ic k bol (x # xs) os cs = Some (r, cs')"
      by (auto split: if_splits option.splits)
    have "\<exists>t. x # xs = t @ r \<and> (\<forall>x \<in> set t. consumable ic k x)"
    proof (cases "in_cls ic p x")
      case True
      with False have "rmatch ic (Star p # k) False xs os cs = None" by (cases "rmatch ic (Star p # k) False xs os cs") auto
      from 5(2)[OF True this m] show ?thesis .
    next
      case False
      from 5(3)[OF False m] show ?thesis .
    qed
    then show ?thesis by (auto intro: consumable_Cons)
  qed
next
  case (7 ic p k bol x xs os cs)
  then have c: "in_cls ic p x" and m: "rmatch ic (Star p # k) False xs os cs = Some (r, cs')"
    by (simp_all split: if_splits)
  from 7(1)[OF c m] obtain t where "xs = t @ r" "\<forall>x \<in> set t. consumable ic (Star p # k) x" by blast
  then have "x # xs = (x # t) @ r \<and> (\<forall>y \<in> set (x # t). consumable ic (Plus p # k) y)"
    using c by (auto intro: consumable_Cons consumable_Star_Plus)
  then show ?case by blast
next
  case (9 ic p k bol x xs os cs)
  then have c: "in_cls ic p x" and m: "rmatch ic (LazyStar p # k) False xs os cs = Some (r, cs')"
    by (simp_all split: if_splits)
  from 9(1)[OF c m] obtain t where "xs = t @ r" "\<forall>x \<in> set t. consumable ic (LazyStar p # k) x" by blast
  then have "x # xs = (x # t) @ r \<and> (\<forall>y \<in> set (x # t). consumable ic (LazyPlus p # k) y)"
    using c by (auto intro: consumable_Cons consumable_Star_Plus)
  then show ?case by blast
next
  case (11 ic p k bol x xs os cs)
  show ?case
  proof (cases "rmatch ic k bol (x # xs) os cs")
    case (Some a)
    with 11(3) have "rmatch ic k bol (x # xs) os cs = Some (r, cs')" by simp
    from 11(1)[OF this] show ?thesis by (auto intro: consumable_Cons)
  next
    case None
    with 11(3) have c: "in_cls ic p x" and
      m: "rmatch ic (LazyStar p # k) False xs os cs = Some (r, cs')"
      by (simp_all split: if_splits)
    from 11(2)[OF None c m] obtain t where "xs = t @ r" "\<forall>x \<in> set t. consumable ic (LazyStar p # k) x" by blast
    then have "x # xs = (x # t) @ r \<and> (\<forall>y \<in> set (x # t). consumable ic (LazyStar p # k) y)"
      using c by (auto intro: consumable_Cons)
    then show ?thesis by blast
  qed
next
  case (13 ic n k bol s os cs)
  then obtain t where "map_of os n = Some t"
    and "rmatch ic k bol s os ((n, take (length t - length s) t) # cs) = Some (r, cs')"
    by (auto split: option.splits)
  from 13(1)[OF this] show ?case by (auto intro: consumable_Cons)
qed (force split: if_splits intro: consumable_Cons)+


lemma rmatch_suffix:
  "rmatch ic k bol s os cs = Some (r, cs') \<Longrightarrow> \<exists>t. s = t @ r"
  using rmatch_consumed by blast

lemma rmatch_length: "rmatch ic k bol s os cs = Some (r, cs') \<Longrightarrow> length r \<le> length s"
  using rmatch_suffix by fastforce

lemma rsearch_decomp:
  "rsearch ic k bol s = Some m \<Longrightarrow> s = m_pre m @ m_text m @ m_post m"
proof (induction s arbitrary: bol m)
  case Nil
  then show ?case by (auto split: option.splits)
next
  case (Cons x xs)
  show ?case
  proof (cases "rmatch ic k bol (x # xs) [] []")
    case (Some a)
    obtain r cs where a: "a = (r, cs)" by (cases a)
    from rmatch_suffix Some a obtain t where t: "x # xs = t @ r" by blast
    from Cons.prems Some a
    have m: "m = \<lparr>m_pre = [], m_text = take (length (x # xs) - length r) (x # xs),
                m_post = r, m_caps = cs\<rparr>" by simp
    have "take (length (x # xs) - length r) (x # xs) = t" unfolding t by simp
    with m t show ?thesis by simp
  next
    case None
    with Cons.prems obtain m' where m': "rsearch ic k False xs = Some m'"
      and m: "m = m'\<lparr>m_pre := x # m_pre m'\<rparr>"
      by (auto split: option.splits)
    from Cons.IH[OF m'] m show ?thesis by simp
  qed
qed

lemma rsearch_post_length:
  assumes "rsearch ic k bol s = Some m"
  shows "length (m_post m) \<le> length s"
    and "m_text m \<noteq> [] \<Longrightarrow> length (m_post m) < length s"
proof -
  have "length s = length (m_pre m) + length (m_text m) + length (m_post m)"
    using rsearch_decomp[OF assms] by (metis length_append add.assoc)
  then show "length (m_post m) \<le> length s"
    and "m_text m \<noteq> [] \<Longrightarrow> length (m_post m) < length s"
    by simp_all
qed


lemma rsearch_consumed:
  "rsearch ic k bol s = Some m \<Longrightarrow> \<forall>x \<in> set (m_text m). consumable ic k x"
proof (induction s arbitrary: bol m)
  case Nil
  then show ?case by (auto split: option.splits)
next
  case (Cons x xs)
  show ?case
  proof (cases "rmatch ic k bol (x # xs) [] []")
    case (Some a)
    obtain r cs where a: "a = (r, cs)" by (cases a)
    from rmatch_consumed Some a obtain t where t: "x # xs = t @ r"
      and c: "\<forall>x \<in> set t. consumable ic k x" by blast
    from Cons.prems Some a
    have m: "m = \<lparr>m_pre = [], m_text = take (length (x # xs) - length r) (x # xs),
                m_post = r, m_caps = cs\<rparr>" by simp
    have "take (length (x # xs) - length r) (x # xs) = t" unfolding t by simp
    with m c show ?thesis by simp
  next
    case None
    with Cons.prems obtain m' where m': "rsearch ic k False xs = Some m'"
      and m: "m = m'\<lparr>m_pre := x # m_pre m'\<rparr>"
      by (auto split: option.splits)
    from Cons.IH[OF m'] m show ?thesis by simp
  qed
qed

subsection \<open>Substitution, \<open>findall\<close> and the string methods\<close>

text \<open>
  \<open>re.sub(pattern, repl, string)\<close> for a replacement without group references, as
  Python 2 computes it: the string is searched from left to right; the text between two
  matches is copied, each match is replaced; an empty match is replaced unless it
  touches the end of the previous match, and the search then moves one character on.
  \<open>pend\<close> is the text already searched and not yet copied, \<open>nz\<close> says that a
  replacement was made before.
\<close>

function sub_loop :: "bool \<Rightarrow> item list \<Rightarrow> string \<Rightarrow> bool \<Rightarrow> bool \<Rightarrow> string \<Rightarrow> string \<Rightarrow> string" where
  "sub_loop ic k repl bol nz pend s =
     (case rsearch ic k bol s of
        None \<Rightarrow> pend @ s
      | Some m \<Rightarrow>
          (let emitted =
                 (if pend @ m_pre m \<noteq> [] then pend @ m_pre m @ repl
                  else if m_text m = [] \<and> nz then []
                  else repl)
           in if m_text m = []
              then (case m_post m of
                      [] \<Rightarrow> emitted
                    | c # r \<Rightarrow> emitted @ sub_loop ic k repl False True [c] r)
              else emitted @ sub_loop ic k repl False True [] (m_post m)))"
  by pat_completeness auto
termination
proof (relation "measure (\<lambda>(ic, k, repl, bol, nz, pend, s). length s)")
  show "wf (measure (\<lambda>(ic, k, repl, bol, nz, pend, s). length s))" by simp
next
  fix ic k repl bol nz pend s m emitted c r
  assume "rsearch ic k bol s = Some m" and "m_post m = c # r"
  then show "((ic, k, repl, False, True, [c], r), (ic, k, repl, bol, nz, pend, s))
      \<in> measure (\<lambda>(ic, k, repl, bol, nz, pend, s). length s)"
    using rsearch_post_length(1)[of ic k bol s m] by simp
next
  fix ic k repl bol nz pend s m emitted
  assume "rsearch ic k bol s = Some m" and "m_text m \<noteq> []"
  then show "((ic, k, repl, False, True, [], m_post m), (ic, k, repl, bol, nz, pend, s))
      \<in> measure (\<lambda>(ic, k, repl, bol, nz, pend, s). length s)"
    using rsearch_post_length(2)[of ic k bol s m] by simp
qed

declare sub_loop.simps [simp del]

definition re_sub :: "bool \<Rightarrow> item list \<Rightarrow> string \<Rightarrow> string \<Rightarrow> string" where
  "re_sub ic k repl s = sub_loop ic k repl True False [] s"

text \<open>\<open>re.findall\<close> for a pattern with one group: group 1 of every match, from left
  to right; after an empty match the search moves one character on.\<close>

function rfindall :: "bool \<Rightarrow> item list \<Rightarrow> bool \<Rightarrow> string \<Rightarrow> string list" where
  "rfindall ic k bol s =
     (case rsearch ic k bol s of
        None \<Rightarrow> []
      | Some m \<Rightarrow>
          group m 1 #
          (if m_text m = []
           then (case m_post m of [] \<Rightarrow> [] | c # r \<Rightarrow> rfindall ic k False r)
           else rfindall ic k False (m_post m)))"
  by pat_completeness auto
termination
proof (relation "measure (\<lambda>(ic, k, bol, s). length s)")
  show "wf (measure (\<lambda>(ic, k, bol, s). length s))" by simp
next
  fix ic k bol s m c r
  assume "rsearch ic k bol s = Some m" and "m_post m = c # r"
  then show "((ic, k, False, r), (ic, k, bol, s)) \<in> measure (\<lambda>(ic, k, bol, s). length s)"
    using rsearch_post_length(1)[of ic k bol s m] by simp
next
  fix ic k bol s m
  assume "rsearch ic k bol s = Some m" and "m_text m \<noteq> []"
  then show "((ic, k, False, m_post m), (ic, k, bol, s)) \<in> measure (\<lambda>(ic, k, bol, s). length s)"
    using rsearch_post_length(2)[of ic k bol s m] by simp
qed

declare rfindall.simps [simp del]

definition re_findall :: "bool \<Rightarrow> item list \<Rightarrow> string \<Rightarrow> string list" where
  "re_findall ic k s = rfindall ic k True s"

text \<open>\<open>s.replace(old, new)\<close>: every occurrence of \<open>old\<close>, from left to right, without
  overlap; an empty \<open>old\<close> puts \<open>new\<close> around every character.\<close>

fun str_replace :: "string \<Rightarrow> string \<Rightarrow> string \<Rightarrow> string" where
  "str_replace old new [] = (if old = [] then new else [])"
| "str_replace old new (x # xs) =
     (if old = [] then new @ x # str_replace old new xs
      else if take (length old) (x # xs) = old
           then new @ str_replace old new (drop (length old) (x # xs))
           else x # str_replace old new xs)"

text \<open>\<open>s.split(" ")[0]\<close>: the text before the first space (all of \<open>s\<close> without one).\<close>

definition first_token :: "string \<Rightarrow> string" where
  "first_token s = takeWhile (\<lambda>c. c \<noteq> CHR '' '') s"

section \<open>The name normalizer \<open>newick_clean\<close>\<close>

definition lit :: "string \<Rightarrow> item list" where
  "lit s = map (\<lambda>c. One (CChar c)) s"

text \<open>\<^verbatim>\<open>\s*(?i)[^\s]*\|BL_ORD_ID\|\d+\s*\<close>; the flag is global, so the pattern is run with
  \<open>ic = True\<close>.\<close>

definition rx_blord :: "item list" where
  "rx_blord = [Star CSpace, Star CNotSpace] @ lit ''|BL_ORD_ID|'' @ [Plus CDigit, Star CSpace]"

text \<open>\<^verbatim>\<open>(\[(.+?)\])\<close>\<close>

definition rx_bracket :: "item list" where
  "rx_bracket = [Open 1] @ lit ''['' @ [Open 2, LazyPlus CAny, Close 2] @ lit '']'' @ [Close 1]"

text \<open>\<^verbatim>\<open>(PREDICTED: (\w+ \w+))\<close>\<close>

definition rx_predicted :: "item list" where
  "rx_predicted =
     [Open 1] @ lit ''PREDICTED: '' @ [Open 2, Plus CWord] @ lit '' '' @
     [Plus CWord, Close 2, Close 1]"

text \<open>\<^verbatim>\<open>^[^\s]+( (\w+ \w+))\<close>\<close>

definition rx_firsttok :: "item list" where
  "rx_firsttok =
     [Bol, Plus CNotSpace, Open 1] @ lit '' '' @ [Open 2, Plus CWord] @ lit '' '' @
     [Plus CWord, Close 2, Close 1]"

text \<open>\<^verbatim>\<open>\s\(.*\)\<close>\<close>

definition rx_parens :: "item list" where
  "rx_parens = [One CSpace] @ lit ''('' @ [Star CAny] @ lit '')''"

text \<open>\<^verbatim>\<open>sp\|[^\s]*\|([\w_]+)\<close>\<close>

definition rx_sp :: "item list" where
  "rx_sp = lit ''sp|'' @ [Star CNotSpace] @ lit ''|'' @ [Open 1, Plus CWord, Close 1]"

text \<open>\<^verbatim>\<open>\((\w+)\)\<close>\<close>

definition rx_gene :: "item list" where
  "rx_gene = lit ''('' @ [Open 1, Plus CWord, Close 1] @ lit '')''"

text \<open>\<^verbatim>\<open>_+\<close> and \<^verbatim>\<open>_$\<close>\<close>

definition rx_us :: "item list" where
  "rx_us = [Plus (CChar CHR ''_'')]"

definition rx_us_end :: "item list" where
  "rx_us_end = lit ''_'' @ [Eol]"

text \<open>
  \<open>newick_clean\<close> in two halves. \<open>compose_label\<close> is the function up to
  \<^verbatim>\<open>out = seqname.split(" ")[0]+gene+species\<close>: the \<open>BL_ORD_ID\<close> token is removed, the
  species is looked for by three patterns in turn and its span removed from the name,
  the gene is looked for by two patterns. \<open>clean_label\<close> is the rest: eight
  \<open>replace\<close> calls and two \<open>re.sub\<close>.
\<close>

definition compose_label :: "string \<Rightarrow> string" where
  "compose_label seqname0 =
     (let seqname1 = re_sub True rx_blord [] seqname0;
          m = (case re_search False rx_bracket seqname1 of
                 Some m \<Rightarrow> Some m
               | None \<Rightarrow>
                  (case re_search False rx_predicted seqname1 of
                     Some m \<Rightarrow> Some m
                   | None \<Rightarrow> re_search False rx_firsttok seqname1));
          species0 = (case m of None \<Rightarrow> [] | Some m \<Rightarrow> ''_'' @ group m 2);
          seqname2 = (case m of None \<Rightarrow> seqname1
                      | Some m \<Rightarrow> str_replace (group m 1) [] seqname1);
          species = re_sub False rx_parens [] species0;
          gene = (case re_search False rx_sp seqname2 of
                    Some m \<Rightarrow> group m 1
                  | None \<Rightarrow>
                     (case re_findall False rx_gene seqname2 of
                        [] \<Rightarrow> []
                      | g # _ \<Rightarrow> ''_'' @ g))
      in first_token seqname2 @ gene @ species)"

definition clean_label :: "string \<Rightarrow> string" where
  "clean_label out0 =
     (let out1 = str_replace ''['' ''_'' out0;
          out2 = str_replace '']'' ''_'' out1;
          out3 = str_replace ''('' ''_'' out2;
          out4 = str_replace '')'' ''_'' out3;
          out5 = str_replace '','' ''_'' out4;
          out6 = str_replace '';'' ''_'' out5;
          out7 = str_replace '' '' ''_'' out6;
          out8 = str_replace '':'' ''_'' out7;
          out9 = re_sub False rx_us ''_'' out8
      in re_sub False rx_us_end [] out9)"

definition newick_clean :: "string \<Rightarrow> string" where
  "newick_clean seqname = clean_label (compose_label seqname)"

section \<open>Properties of the pattern functions\<close>

lemma sub_loop_set:
  "set (sub_loop ic k repl bol nz pend s) \<subseteq> set pend \<union> set s \<union> set repl"
proof (induction ic k repl bol nz pend s rule: sub_loop.induct)
  case (1 ic k repl bol nz pend s)
  show ?case
  proof (cases "rsearch ic k bol s")
    case None
    then show ?thesis by (subst sub_loop.simps) simp
  next
    case (Some m)
    note d = rsearch_decomp[OF Some]
    define emitted where "emitted =
                 (if pend @ m_pre m \<noteq> [] then pend @ m_pre m @ repl
                  else if m_text m = [] \<and> nz then []
                  else repl)"
    have ps: "set s = set (m_pre m) \<union> set (m_text m) \<union> set (m_post m)"
      using d by (metis set_append Un_assoc)
    have e: "set emitted \<subseteq> set pend \<union> set s \<union> set repl"
      unfolding emitted_def ps by auto
    show ?thesis
    proof (cases "m_text m = []")
      case True
      show ?thesis
      proof (cases "m_post m")
        case Nil
        with Some True e show ?thesis
          by (subst sub_loop.simps) (simp add: emitted_def Let_def)
      next
        case (Cons c r)
        have "set (sub_loop ic k repl False True [c] r) \<subseteq> set [c] \<union> set r \<union> set repl"
          using 1(1)[OF Some emitted_def True Cons] .
        moreover have "set [c] \<union> set r \<subseteq> set s" unfolding ps by (auto simp: Cons)
        ultimately have "set (emitted @ sub_loop ic k repl False True [c] r)
            \<subseteq> set pend \<union> set s \<union> set repl" using e by auto
        with Some True Cons show ?thesis
          by (subst sub_loop.simps) (simp add: emitted_def Let_def)
      qed
    next
      case False
      have "set (sub_loop ic k repl False True [] (m_post m)) \<subseteq> set [] \<union> set (m_post m) \<union> set repl"
        using 1(2)[OF Some emitted_def False] .
      moreover have "set (m_post m) \<subseteq> set s" unfolding ps by simp
      ultimately have "set (emitted @ sub_loop ic k repl False True [] (m_post m))
            \<subseteq> set pend \<union> set s \<union> set repl" using e by auto
      with Some False show ?thesis
        by (subst sub_loop.simps) (simp add: emitted_def Let_def)
    qed
  qed
qed

lemma sub_loop_keeps:
  "c \<in> set pend \<union> set s \<Longrightarrow> \<not> consumable ic k c \<Longrightarrow>
     c \<in> set (sub_loop ic k repl bol nz pend s)"
proof (induction ic k repl bol nz pend s rule: sub_loop.induct)
  case (1 ic k repl bol nz pend s)
  show ?case
  proof (cases "rsearch ic k bol s")
    case None
    with 1(3) show ?thesis by (subst sub_loop.simps) simp
  next
    case (Some m)
    note d = rsearch_decomp[OF Some]
    define emitted where "emitted =
                 (if pend @ m_pre m \<noteq> [] then pend @ m_pre m @ repl
                  else if m_text m = [] \<and> nz then []
                  else repl)"
    have nt: "c \<notin> set (m_text m)" using rsearch_consumed[OF Some] 1(4) by blast
    have ps: "set s = set (m_pre m) \<union> set (m_text m) \<union> set (m_post m)"
      using d by (metis set_append Un_assoc)
    have "c \<in> set pend \<union> set (m_pre m) \<union> set (m_post m)"
      using 1(3) nt unfolding ps by auto
    moreover have "set pend \<union> set (m_pre m) \<subseteq> set emitted"
      unfolding emitted_def by auto
    ultimately have ce: "c \<in> set emitted \<or> c \<in> set (m_post m)" by auto
    show ?thesis
    proof (cases "m_text m = []")
      case True
      show ?thesis
      proof (cases "m_post m")
        case Nil
        with Some True ce show ?thesis
          by (subst sub_loop.simps) (simp add: emitted_def Let_def)
      next
        case (Cons c' r)
        have "c \<in> set [c'] \<union> set r \<Longrightarrow> c \<in> set (sub_loop ic k repl False True [c'] r)"
          using 1(1)[OF Some emitted_def True Cons _ 1(4)] .
        with ce Cons have "c \<in> set (emitted @ sub_loop ic k repl False True [c'] r)" by auto
        with Some True Cons show ?thesis
          by (subst sub_loop.simps) (simp add: emitted_def Let_def)
      qed
    next
      case False
      have "c \<in> set [] \<union> set (m_post m) \<Longrightarrow> c \<in> set (sub_loop ic k repl False True [] (m_post m))"
        using 1(2)[OF Some emitted_def False _ 1(4)] .
      with ce have "c \<in> set (emitted @ sub_loop ic k repl False True [] (m_post m))" by auto
      with Some False show ?thesis
        by (subst sub_loop.simps) (simp add: emitted_def Let_def)
    qed
  qed
qed

lemma str_replace_char:
  "str_replace [a] [b] s = map (\<lambda>x. if x = a then b else x) s"
  by (induction s) auto


lemma str_replace_char_mem:
  "c \<in> set (str_replace [a] [b] s) \<longleftrightarrow> (c \<in> set s \<and> c \<noteq> a) \<or> (c = b \<and> a \<in> set s)"
  by (auto simp: str_replace_char)

lemma str_replace_char_gone: "a \<noteq> b \<Longrightarrow> a \<notin> set (str_replace [a] [b] s)"
  by (auto simp: str_replace_char)

lemma str_replace_char_absent:
  "c \<notin> set s \<Longrightarrow> c \<noteq> b \<Longrightarrow> c \<notin> set (str_replace [a] [b] s)"
  by (auto simp: str_replace_char)

lemma str_replace_char_kept:
  "c \<in> set s \<Longrightarrow> c \<noteq> a \<Longrightarrow> c \<in> set (str_replace [a] [b] s)"
  by (auto simp: str_replace_char)

lemma re_sub_set: "set (re_sub ic k repl s) \<subseteq> set s \<union> set repl"
  using sub_loop_set[of ic k repl True False "[]" s] by (simp add: re_sub_def)

lemma clean_label_absent:
  assumes "c \<in> set ''[](),;: ''"
  shows "c \<notin> set (clean_label s)"
proof -
  define out8 where "out8 =
    str_replace '':'' ''_'' (str_replace '' '' ''_'' (str_replace '';'' ''_''
      (str_replace '','' ''_'' (str_replace '')'' ''_'' (str_replace ''('' ''_''
        (str_replace '']'' ''_'' (str_replace ''['' ''_'' s)))))))"
  from assms have "c \<notin> set out8"
    unfolding out8_def by (auto simp: str_replace_char_mem)
  moreover from assms have "c \<noteq> CHR ''_''" by auto
  ultimately have "c \<notin> set (re_sub False rx_us_end [] (re_sub False rx_us ''_'' out8))"
    using re_sub_set[of False rx_us_end "[]" "re_sub False rx_us ''_'' out8"]
      re_sub_set[of False rx_us "''_''" out8] by auto
  then show ?thesis by (simp add: clean_label_def out8_def)
qed

lemma consumable_rx_us: "consumable False rx_us c \<longleftrightarrow> c = CHR ''_''"
  by (auto simp: consumable_def rx_us_def)

lemma consumable_rx_us_end: "consumable False rx_us_end c \<longleftrightarrow> c = CHR ''_''"
  by (auto simp: consumable_def rx_us_end_def lit_def)

lemma re_sub_keeps: "c \<in> set s \<Longrightarrow> \<not> consumable ic k c \<Longrightarrow> c \<in> set (re_sub ic k repl s)"
  using sub_loop_keeps[of c "[]" s ic k repl True False] by (simp add: re_sub_def)

lemma clean_label_keeps:
  assumes "c \<in> set s" and "c \<notin> set ''_[](),;: ''"
  shows "c \<in> set (clean_label s)"
proof -
  define out8 where "out8 =
    str_replace '':'' ''_'' (str_replace '' '' ''_'' (str_replace '';'' ''_''
      (str_replace '','' ''_'' (str_replace '')'' ''_'' (str_replace ''('' ''_''
        (str_replace '']'' ''_'' (str_replace ''['' ''_'' s)))))))"
  from assms have "c \<in> set out8"
    unfolding out8_def by (simp add: str_replace_char_mem)
  moreover from assms have "c \<noteq> CHR ''_''" by auto
  ultimately have "c \<in> set (re_sub False rx_us_end [] (re_sub False rx_us ''_'' out8))"
    by (simp add: re_sub_keeps consumable_rx_us consumable_rx_us_end)
  then show ?thesis by (simp add: clean_label_def out8_def)
qed

lemma rmatch_star_us:
  "rmatch False [Star (CChar CHR ''_'')] b (replicate n CHR ''_'') os cs = Some ([], cs)"
  by (induction n arbitrary: b) simp_all

lemma rsearch_us_run:
  "rsearch False rx_us bol (replicate (Suc n) CHR ''_'') =
     Some \<lparr>m_pre = [], m_text = replicate (Suc n) CHR ''_'', m_post = [], m_caps = []\<rparr>"
  by (simp add: rx_us_def rmatch_star_us)

lemma re_sub_us_run:
  "re_sub False rx_us ''_'' (replicate n CHR ''_'') = (if n = 0 then [] else ''_'')"
proof (cases n)
  case 0
  then show ?thesis
    unfolding re_sub_def by (subst sub_loop.simps) (simp add: rx_us_def)
next
  case (Suc j)
  have e: "sub_loop False rx_us ''_'' False True [] [] = []"
    by (subst sub_loop.simps) (simp add: rx_us_def)
  show ?thesis unfolding re_sub_def Suc
    by (subst sub_loop.simps) (simp add: rsearch_us_run e del: replicate.simps)
qed

lemma re_sub_us_end_single: "re_sub False rx_us_end [] ''_'' = []" 
  by code_simp

lemma re_sub_us_end_empty: "re_sub False rx_us_end [] [] = []" 
  by code_simp

lemma clean_label_all_replaced:
  assumes "set s \<subseteq> set ''_[](),;: ''"
  shows "clean_label s = []"
proof -
  define out8 where "out8 =
    str_replace '':'' ''_'' (str_replace '' '' ''_'' (str_replace '';'' ''_''
      (str_replace '','' ''_'' (str_replace '')'' ''_'' (str_replace ''('' ''_''
        (str_replace '']'' ''_'' (str_replace ''['' ''_'' s)))))))"
  have "set out8 \<subseteq> {CHR ''_''}"
    using assms unfolding out8_def by (auto simp: str_replace_char_mem)
  then have "out8 = replicate (length out8) CHR ''_''"
    by (metis replicate_length_same singletonD subsetD)
  then have "re_sub False rx_us ''_'' out8 = (if length out8 = 0 then [] else ''_'')"
    using re_sub_us_run[of "length out8"] by simp
  then have "re_sub False rx_us_end [] (re_sub False rx_us ''_'' out8) = []"
    by (simp add: re_sub_us_end_single re_sub_us_end_empty)
  then show ?thesis by (simp add: clean_label_def out8_def)
qed


text \<open>The classes a pattern cannot match without: a string with no character of
  such a class has no match.\<close>

fun item_needs :: "item \<Rightarrow> cls set" where
  "item_needs (One p) = {p}"
| "item_needs (Plus p) = {p}"
| "item_needs (LazyPlus p) = {p}"
| "item_needs _ = {}"

definition needs :: "item list \<Rightarrow> cls set" where
  "needs k = (\<Union>i \<in> set k. item_needs i)"

lemma needs_simps [simp]:
  "needs [] = {}"
  "needs (i # k) = item_needs i \<union> needs k"
  by (simp_all add: needs_def)

lemma rmatch_needs:
  "rmatch ic k bol s os cs = Some (r, cs') \<Longrightarrow> p \<in> needs k \<Longrightarrow> \<exists>x \<in> set s. in_cls ic p x"
proof (induction ic k bol s os cs arbitrary: r cs' rule: rmatch.induct)
  case (3 ic q k bol x xs os cs)
  then have c: "in_cls ic q x" and m: "rmatch ic k False xs os cs = Some (r, cs')"
    by (simp_all split: if_splits)
  show ?case
  proof (cases "p = q")
    case True
    with c show ?thesis by auto
  next
    case False
    with 3(3) have "p \<in> needs k" by simp
    from 3(1)[OF c m this] show ?thesis by auto
  qed
next
  case (5 ic q k bol x xs os cs)
  from 5(5) have pk: "p \<in> needs k" and ps: "p \<in> needs (Star q # k)" by simp_all
  show ?case
  proof (cases "in_cls ic q x")
    case True
    show ?thesis
    proof (cases "rmatch ic (Star q # k) False xs os cs")
      case None
      with 5(4) True have "rmatch ic k bol (x # xs) os cs = Some (r, cs')" by simp
      from 5(2)[OF True None this pk] show ?thesis .
    next
      case (Some a)
      with 5(4) True have "rmatch ic (Star q # k) False xs os cs = Some (r, cs')" by simp
      from 5(1)[OF True this ps] show ?thesis by auto
    qed
  next
    case False
    with 5(4) have "rmatch ic k bol (x # xs) os cs = Some (r, cs')" by simp
    from 5(3)[OF False this pk] show ?thesis .
  qed
next
  case (7 ic q k bol x xs os cs)
  then have c: "in_cls ic q x" and m: "rmatch ic (Star q # k) False xs os cs = Some (r, cs')"
    by (simp_all split: if_splits)
  show ?case
  proof (cases "p = q")
    case True
    with c show ?thesis by auto
  next
    case False
    with 7(3) have "p \<in> needs (Star q # k)" by simp
    from 7(1)[OF c m this] show ?thesis by auto
  qed
next
  case (9 ic q k bol x xs os cs)
  then have c: "in_cls ic q x" and m: "rmatch ic (LazyStar q # k) False xs os cs = Some (r, cs')"
    by (simp_all split: if_splits)
  show ?case
  proof (cases "p = q")
    case True
    with c show ?thesis by auto
  next
    case False
    with 9(3) have "p \<in> needs (LazyStar q # k)" by simp
    from 9(1)[OF c m this] show ?thesis by auto
  qed
next
  case (11 ic q k bol x xs os cs)
  from 11(4) have pk: "p \<in> needs k" and ps: "p \<in> needs (LazyStar q # k)" by simp_all
  show ?case
  proof (cases "rmatch ic k bol (x # xs) os cs")
    case (Some a)
    with 11(3) have "rmatch ic k bol (x # xs) os cs = Some (r, cs')" by simp
    from 11(1)[OF this pk] show ?thesis .
  next
    case None
    with 11(3) have c: "in_cls ic q x" and
      m: "rmatch ic (LazyStar q # k) False xs os cs = Some (r, cs')"
      by (simp_all split: if_splits)
    from 11(2)[OF None c m ps] show ?thesis by auto
  qed
next
  case (13 ic n k bol s os cs)
  then obtain t where "map_of os n = Some t"
    and "rmatch ic k bol s os ((n, take (length t - length s) t) # cs) = Some (r, cs')"
    by (auto split: option.splits)
  from 13(1)[OF this] 13(3) show ?case by simp
qed (force split: if_splits)+

lemma rsearch_needs:
  "rsearch ic k bol s = Some m \<Longrightarrow> p \<in> needs k \<Longrightarrow> \<exists>x \<in> set s. in_cls ic p x"
proof (induction s arbitrary: bol m)
  case Nil
  then show ?case using rmatch_needs[of ic k bol "[]" "[]" "[]" _ _ p]
    by (auto split: option.splits)
next
  case (Cons x xs)
  show ?case
  proof (cases "rmatch ic k bol (x # xs) [] []")
    case (Some a)
    then show ?thesis using rmatch_needs[of ic k bol "x # xs" "[]" "[]" "fst a" "snd a" p] Cons.prems(2)
      by simp
  next
    case None
    with Cons.prems obtain m' where m': "rsearch ic k False xs = Some m'"
      by (auto split: option.splits)
    from Cons.IH[OF m' Cons.prems(2)] show ?thesis by auto
  qed
qed

lemma rsearch_None:
  "p \<in> needs k \<Longrightarrow> \<forall>x \<in> set s. \<not> in_cls ic p x \<Longrightarrow> rsearch ic k bol s = None"
  using rsearch_needs[of ic k bol s _ p] by (cases "rsearch ic k bol s") auto

lemma re_sub_no_match: "rsearch ic k True s = None \<Longrightarrow> re_sub ic k repl s = s"
  unfolding re_sub_def by (subst sub_loop.simps) simp

lemma re_findall_no_match: "rsearch ic k True s = None \<Longrightarrow> re_findall ic k s = []"
  unfolding re_findall_def by (subst rfindall.simps) simp

lemma lower_bar: "lower x = lower CHR ''|'' \<longleftrightarrow> x = CHR ''|''"
proof
  assume a: "lower x = lower CHR ''|''"
  have l: "lower CHR ''|'' = CHR ''|''" by (simp add: lower_def is_upper_def)
  show "x = CHR ''|''"
  proof (cases "is_upper x")
    case True
    then have "of_char (lower x) = ((of_char x :: nat) + 32) mod 256" by (simp add: lower_def)
    also have "\<dots> = (of_char x :: nat) + 32" using True by (simp add: is_upper_def)
    finally have "(of_char (lower x) :: nat) \<le> 122" using True by (simp add: is_upper_def)
    moreover have "(of_char (lower x) :: nat) = 124" unfolding a l by simp
    ultimately show ?thesis by simp
  next
    case False
    with a l show ?thesis by (simp add: lower_def)
  qed
qed simp

text \<open>A name without two underscores in a row.\<close>

fun no_us_pair :: "string \<Rightarrow> bool" where
  "no_us_pair (x # y # zs) = (\<not> (x = CHR ''_'' \<and> y = CHR ''_'') \<and> no_us_pair (y # zs))"
| "no_us_pair _ = True"

lemma sub_loop_skip:
  assumes "rmatch ic k bol (x # xs) [] [] = None"
  shows "sub_loop ic k repl bol nz pend (x # xs) = sub_loop ic k repl False nz' (pend @ [x]) xs"
proof (cases "rsearch ic k False xs")
  case None
  with assms show ?thesis
    by (subst sub_loop.simps, subst (2) sub_loop.simps) simp
next
  case (Some m)
  with assms show ?thesis
    by (subst sub_loop.simps, subst (3) sub_loop.simps) (simp add: Let_def)
qed

lemma sub_loop_hit:
  assumes "rmatch ic k bol (x # xs) [] [] = Some (r, cs)" and "length r < length (x # xs)"
  shows "sub_loop ic k repl bol nz pend (x # xs) = pend @ repl @ sub_loop ic k repl False True [] r"
  using assms by (subst sub_loop.simps) (auto simp: Let_def)

lemma rmatch_us_single:
  "no_us_pair (CHR ''_'' # xs) \<Longrightarrow> rmatch False rx_us bol (CHR ''_'' # xs) [] [] = Some (xs, [])"
  by (cases xs) (auto simp: rx_us_def)

lemma no_us_pair_tail: "no_us_pair (x # xs) \<Longrightarrow> no_us_pair xs"
  by (cases xs) auto

lemma sub_loop_us_id:
  "no_us_pair s \<Longrightarrow> sub_loop False rx_us ''_'' bol nz pend s = pend @ s"
proof (induction s arbitrary: bol nz pend)
  case Nil
  show ?case by (subst sub_loop.simps) (simp add: rx_us_def)
next
  case (Cons x xs)
  note t = no_us_pair_tail[OF Cons.prems]
  show ?case
  proof (cases "x = CHR ''_''")
    case True
    with Cons.prems have "rmatch False rx_us bol (x # xs) [] [] = Some (xs, [])"
      using rmatch_us_single by simp
    from sub_loop_hit[OF this] Cons.IH[OF t] True show ?thesis by simp
  next
    case False
    then have "rmatch False rx_us bol (x # xs) [] [] = None" by (simp add: rx_us_def)
    from sub_loop_skip[OF this, of "''_''" nz pend nz] Cons.IH[OF t, of False nz "pend @ [x]"]
    show ?thesis by simp
  qed
qed

lemma rsearch_us_end_None:
  "CHR 0x0A \<notin> set s \<Longrightarrow> s = [] \<or> last s \<noteq> CHR ''_'' \<Longrightarrow> rsearch False rx_us_end bol s = None"
proof (induction s arbitrary: bol)
  case Nil
  then show ?case by (simp add: rx_us_end_def lit_def)
next
  case (Cons x xs)
  have m: "rmatch False rx_us_end bol (x # xs) [] [] = None"
    using Cons.prems by (auto simp: rx_us_end_def lit_def)
  have "rsearch False rx_us_end False xs = None"
    using Cons.IH[of False] Cons.prems by (cases xs) auto
  with m show ?case by simp
qed

lemma str_replace_char_id: "a \<notin> set s \<Longrightarrow> str_replace [a] [b] s = s"
  by (induction s) auto

lemma first_token_id: "CHR '' '' \<notin> set s \<Longrightarrow> first_token s = s"
  by (induction s) (auto simp: first_token_def)

lemma clean_label_id:
  assumes "CHR ''['' \<notin> set s" "CHR '']'' \<notin> set s" "CHR ''('' \<notin> set s" "CHR '')'' \<notin> set s"
    "CHR '','' \<notin> set s" "CHR '';'' \<notin> set s" "CHR '' '' \<notin> set s" "CHR '':'' \<notin> set s"
    and "CHR 0x0A \<notin> set s"
    and "no_us_pair s" and "s = [] \<or> last s \<noteq> CHR ''_''"
  shows "clean_label s = s"
proof -
  have u: "re_sub False rx_us ''_'' s = s"
    using sub_loop_us_id[OF assms(10)] by (simp add: re_sub_def)
  have e: "re_sub False rx_us_end [] s = s"
    using rsearch_us_end_None[OF assms(9,11)] by (rule re_sub_no_match)
  show ?thesis by (simp add: clean_label_def str_replace_char_id assms(1-8) u e)
qed

section \<open>The claims about \<open>newick_clean\<close>\<close>

text \<open>The eight characters that \<open>clean_label\<close> replaces are in no output.\<close>

lemma newick_clean_no_forbidden:
  "set (newick_clean s) \<inter> set ''[](),;: '' = {}"
  using clean_label_absent[of _ "compose_label s"]
  unfolding newick_clean_def by blast

text \<open>
  Claim C8: for every input, the output of \<open>newick_clean\<close> contains none of the
  characters \<open>[ ] ( ) , ; :\<close> and no whitespace character. The function is documented
  as cleaning the name \<open>to be compatible with newick format\<close>, and its patterns take
  every whitespace character alike (\<^verbatim>\<open>\s\<close>); but the one whitespace character it replaces
  is the space, by \<^verbatim>\<open>out.replace(" ","_")\<close>. A tab is a whitespace character, and the tab
  of the name \<open>a<TAB>b\<close> is still in the output.
\<close>

theorem newick_clean_keeps_tab:
  "is_space (CHR 0x09) \<and> CHR 0x09 \<in> set (newick_clean [CHR ''a'', CHR 0x09, CHR ''b''])"
  by code_simp


text \<open>
  Claim C9, as the code has it: \<open>newick_clean\<close> returns a non-empty string exactly when
  the label it composes (first token, gene and species joined) has a character other
  than \<open>_\<close> and the eight characters that are replaced by \<open>_\<close>. A non-empty input
  alone does not give a non-empty output.
\<close>

theorem newick_clean_nonempty_iff:
  "newick_clean s \<noteq> [] \<longleftrightarrow> (\<exists>c \<in> set (compose_label s). c \<notin> set ''_[](),;: '')"
proof
  assume "newick_clean s \<noteq> []"
  then have "\<not> set (compose_label s) \<subseteq> set ''_[](),;: ''"
    using clean_label_all_replaced[of "compose_label s"] by (auto simp: newick_clean_def)
  then show "\<exists>c \<in> set (compose_label s). c \<notin> set ''_[](),;: ''" by blast
next
  assume "\<exists>c \<in> set (compose_label s). c \<notin> set ''_[](),;: ''"
  then obtain c where "c \<in> set (compose_label s)" "c \<notin> set ''_[](),;: ''" by blast
  from clean_label_keeps[OF this] show "newick_clean s \<noteq> []"
    by (auto simp: newick_clean_def)
qed


text \<open>The claim as stated fails: the non-empty name \<open>_\<close> is cleaned to the empty
  string, by \<^verbatim>\<open>re.sub(r"_$","",out)\<close>.\<close>

theorem newick_clean_underscore_empty: "''_'' \<noteq> [] \<and> newick_clean ''_'' = []"
  by code_simp

text \<open>A name without \<open>[\<close>, \<open>(\<close> and space in which neither the \<open>BL_ORD_ID\<close> pattern
  nor the \<open>sp|...|gene\<close> pattern has a match is its own composed label.\<close>

lemma compose_label_id:
  assumes "CHR ''['' \<notin> set s" "CHR ''('' \<notin> set s" "CHR '' '' \<notin> set s"
    and "re_search True rx_blord s = None" and "re_search False rx_sp s = None"
  shows "compose_label s = s"
proof -
  have sp: "\<forall>x \<in> set s. \<not> in_cls False (CChar CHR '' '') x"
    using assms(3) by auto
  have br: "\<forall>x \<in> set s. \<not> in_cls False (CChar CHR ''['') x"
    using assms(1) by auto
  have pa: "\<forall>x \<in> set s. \<not> in_cls False (CChar CHR ''('') x"
    using assms(2) by auto
  have 1: "re_sub True rx_blord [] s = s"
    using assms(4) unfolding re_search_def by (rule re_sub_no_match)
  have 2: "re_search False rx_bracket s = None"
    unfolding re_search_def by (rule rsearch_None[OF _ br]) (simp add: rx_bracket_def lit_def)
  have 3: "re_search False rx_predicted s = None"
    unfolding re_search_def by (rule rsearch_None[OF _ sp]) (simp add: rx_predicted_def lit_def)
  have 4: "re_search False rx_firsttok s = None"
    unfolding re_search_def by (rule rsearch_None[OF _ sp]) (simp add: rx_firsttok_def lit_def)
  have 5: "re_sub False rx_parens [] [] = []"
    by (rule re_sub_no_match) (simp add: rx_parens_def)
  have 7: "re_findall False rx_gene s = []"
    by (rule re_findall_no_match, rule rsearch_None[OF _ pa]) (simp add: rx_gene_def lit_def)
  have 8: "first_token s = s" using assms(3) by (rule first_token_id)
  show ?thesis by (simp add: compose_label_def 1 2 3 4 5 7 8 assms(5))
qed

text \<open>
  Claim C10, as the code has it. \<open>newick_clean\<close> is a function of its argument alone, so
  the same input always gives the same output. It leaves a name as it is when the name
  has none of the characters \<open>[ ] ( ) , ; :\<close>, no space and no newline, no two
  underscores in a row and no underscore at its end, and when neither the pattern
  \<^verbatim>\<open>\s*(?i)[^\s]*\|BL_ORD_ID\|\d+\s*\<close> nor the pattern \<^verbatim>\<open>sp\|[^\s]*\|([\w_]+)\<close> has a match in
  it. The name may contain \<open>|\<close>, tabs and other characters.
\<close>

theorem newick_clean_fixed_point:
  assumes "set s \<inter> set ''[](),;: '' = {}"
    and "CHR 0x0A \<notin> set s"
    and "no_us_pair s"
    and "s = [] \<or> last s \<noteq> CHR ''_''"
    and "re_search True rx_blord s = None"
    and "re_search False rx_sp s = None"
  shows "newick_clean s = s"
proof -
  have a: "c \<in> set ''[](),;: '' \<Longrightarrow> c \<notin> set s" for c using assms(1) by blast
  have c: "CHR ''['' \<notin> set s" "CHR '']'' \<notin> set s" "CHR ''('' \<notin> set s" "CHR '')'' \<notin> set s"
    "CHR '','' \<notin> set s" "CHR '';'' \<notin> set s" "CHR '' '' \<notin> set s" "CHR '':'' \<notin> set s"
    by (rule a, simp)+
  have "compose_label s = s" using c(1,3,7) assms(5,6) by (rule compose_label_id)
  moreover have "clean_label s = s" using c assms(2,3,4) by (intro clean_label_id)
  ultimately show ?thesis by (simp add: newick_clean_def)
qed

theorem newick_clean_fixed_point_witness:
  "newick_clean ''gi|123|ref|NP_000549.1|_Escherichia_coli'' = ''gi|123|ref|NP_000549.1|_Escherichia_coli''"
proof -
  let ?s = "''gi|123|ref|NP_000549.1|_Escherichia_coli''"
  have 1: "set ?s \<inter> set ''[](),;: '' = {}" by simp
  have 2: "CHR 0x0A \<notin> set ?s" by simp
  have 3: "no_us_pair ?s" by simp
  have 4: "?s = [] \<or> last ?s \<noteq> CHR ''_''" by simp
  have 5: "re_search True rx_blord ?s = None" by code_simp
  have 6: "re_search False rx_sp ?s = None" by code_simp
  from newick_clean_fixed_point[OF 1 2 3 4 5 6] show ?thesis .
qed

text \<open>The claim as stated fails: \<open>sp|a|bb\<close> is an output of \<open>newick_clean\<close> (for
  \<open>sp|a|b\<close>, the gene \<open>b\<close> is appended to the first token), and \<open>newick_clean\<close> maps it to
  \<open>sp|a|bbbb\<close>.\<close>

theorem newick_clean_not_idempotent:
  "newick_clean (newick_clean ''sp|a|b'') \<noteq> newick_clean ''sp|a|b''"
  by code_simp

section \<open>The job record, the collaborators and the state of a task run\<close>

datatype status = PENDING | RUNNING | FINISHED | ERROR

datatype server = NCBI | PASTEUR

text \<open>The fields of \<open>BlastRun\<close> that \<open>tasks.py\<close> reads and writes (\<open>models.py\<close> declares
  them; \<open>run_id\<close> is the field \<open>id\<close>).\<close>

record blastrun =
  run_id :: nat
  email :: "string option"
  status :: status
  message :: string
  tree :: string
  query_id :: string
  query_seq :: string
  evalue :: real
  coverage :: real
  database :: string
  blastprog :: string
  history :: string
  history_fileid :: string
  deleted :: bool
  server :: server

text \<open>A Python exception: its class and the text \<open>str(e)\<close>.\<close>

datatype exn = Exn string string

fun exn_class :: "exn \<Rightarrow> string" where
  "exn_class (Exn c t) = c"

fun exn_text :: "exn \<Rightarrow> string" where
  "exn_text (Exn c t) = t"

record fasta =
  fa_id :: string
  fa_seq :: string

record hsp =
  expect :: real
  align_length :: int
  sbjct :: string

record alignment =
  title :: string
  hsps :: "hsp list"

record blast_record =
  alignments :: "alignment list"
  query_length :: int

text \<open>What \<open>NCBIXML.parse\<close> yields when it is iterated: the records, and the exception
  that ends the iteration if the result is malformed.\<close>

type_synonym blast_stream = "blast_record list \<times> exn option"

record mail =
  mail_subject :: string
  mail_body :: string
  mail_from :: string
  mail_to :: "string list"

text \<open>
  The collaborators of the tasks, each with the outcome of a call: \<open>Inl\<close> is the
  exception it raises. \<open>'m\<close> is the class \<open>PseudoMSA\<close> of \<open>msa.py\<close>, with its constructor
  and the two methods that the tasks call. \<open>db_fault n\<close> is the exception, if any, that
  the \<open>n\<close>-th database operation of the run raises. \<open>to_float\<close> rounds the quotient of
  the float division.
\<close>

record 'm env =
  db_fault :: "nat \<Rightarrow> exn option"
  seqio_parse :: "string \<Rightarrow> exn + fasta list"
  seqio_parse_file :: "string \<Rightarrow> exn + fasta list"
  qblast :: "string \<Rightarrow> string \<Rightarrow> string \<Rightarrow> exn + blast_stream"
  msa_new :: "string \<Rightarrow> string \<Rightarrow> 'm"
  msa_add_hsp :: "string \<Rightarrow> hsp \<Rightarrow> 'm \<Rightarrow> 'm"
  msa_all_sequences :: "'m \<Rightarrow> (string \<times> string) list"
  build_nj_tree :: "blastrun \<Rightarrow> (string \<times> string \<times> nat) list \<Rightarrow> exn + string"
  reverse_url :: "nat \<Rightarrow> exn + string"
  send_mail :: "mail \<Rightarrow> exn option"
  galaxy_connection :: "exn option"
  create_history :: "exn + string"
  blast_type :: "string \<Rightarrow> string option"
  tmp_write :: "string \<Rightarrow> exn option"
  upload_file :: "string \<Rightarrow> string \<Rightarrow> exn + string"
  run_tool :: "string \<Rightarrow> string \<Rightarrow> string \<Rightarrow> string \<Rightarrow> string \<Rightarrow> real \<Rightarrow> exn + string"
  show_dataset :: "string \<Rightarrow> string \<Rightarrow> exn + (string \<times> string)"
  download_dataset :: "string \<Rightarrow> exn + blast_stream"
  to_float :: "real \<Rightarrow> real"

text \<open>
  The state of a run: the local variable \<open>b\<close> (\<open>None\<close> while it is unbound), the rows of
  \<open>BlastRun\<close> and of \<open>BlastSubject\<close>, the calls of \<open>send_mail\<close>, the log, the cache key of
  the lock, the number of database operations so far and the seconds slept.
\<close>

record state =
  var_b :: "blastrun option"
  table :: "blastrun list"
  subjects :: "(string \<times> string \<times> nat) list"
  outbox :: "mail list"
  logged :: "string list"
  lock :: bool
  ndb :: nat
  slept :: nat

type_synonym 'a prog = "state \<Rightarrow> (exn + 'a) \<times> state"

definition ret :: "'a \<Rightarrow> 'a prog" where
  "ret x = (\<lambda>s. (Inr x, s))"

definition raise :: "exn \<Rightarrow> 'a prog" where
  "raise e = (\<lambda>s. (Inl e, s))"

definition bnd :: "'a prog \<Rightarrow> ('a \<Rightarrow> 'b prog) \<Rightarrow> 'b prog" where
  "bnd m f = (\<lambda>s. case m s of (Inl e, s') \<Rightarrow> (Inl e, s') | (Inr x, s') \<Rightarrow> f x s')"

text \<open>A block of statements, run in order up to the first exception.\<close>

fun block :: "unit prog list \<Rightarrow> unit prog" where
  "block [] = ret ()"
| "block (m # ms) = bnd m (\<lambda>_. block ms)"

text \<open>\<^verbatim>\<open>try: m except Exception as e: h e\<close>\<close>

definition try_except :: "unit prog \<Rightarrow> (exn \<Rightarrow> unit prog) \<Rightarrow> unit prog" where
  "try_except m h = (\<lambda>s. case m s of (Inl e, s') \<Rightarrow> h e s' | (Inr x, s') \<Rightarrow> (Inr x, s'))"

definition call :: "exn + 'a \<Rightarrow> 'a prog" where
  "call r = (\<lambda>s. (r, s))"

definition call_unit :: "exn option \<Rightarrow> unit prog" where
  "call_unit r = (case r of None \<Rightarrow> ret () | Some e \<Rightarrow> raise e)"

text \<open>A statement that changes the state and cannot fail, and one that reads it.\<close>

definition modify :: "(state \<Rightarrow> state) \<Rightarrow> unit prog" where
  "modify f = (\<lambda>s. (Inr (), f s))"

definition reads :: "(state \<Rightarrow> exn + 'a) \<Rightarrow> 'a prog" where
  "reads f = (\<lambda>s. (f s, s))"

definition log_line :: "string \<Rightarrow> unit prog" where
  "log_line l = (\<lambda>s. (Inr (), s\<lparr>logged := logged s @ [l]\<rparr>))"

definition sleep :: "nat \<Rightarrow> unit prog" where
  "sleep n = (\<lambda>s. (Inr (), s\<lparr>slept := slept s + n\<rparr>))"

definition unbound_b :: exn where
  "unbound_b = Exn ''UnboundLocalError'' ''local variable 'b' referenced before assignment''"

text \<open>Reading and writing through the local variable \<open>b\<close>.\<close>

definition get_b :: "blastrun prog" where
  "get_b = (\<lambda>s. case var_b s of None \<Rightarrow> (Inl unbound_b, s) | Some b \<Rightarrow> (Inr b, s))"

definition set_b :: "(blastrun \<Rightarrow> blastrun) \<Rightarrow> unit prog" where
  "set_b f = (\<lambda>s. case var_b s of None \<Rightarrow> (Inl unbound_b, s)
                  | Some b \<Rightarrow> (Inr (), s\<lparr>var_b := Some (f b)\<rparr>))"

definition bind_b :: "blastrun \<Rightarrow> unit prog" where
  "bind_b r = (\<lambda>s. (Inr (), s\<lparr>var_b := Some r\<rparr>))"

text \<open>One database operation: it is counted, and fails as \<open>db_fault\<close> says.\<close>

definition db_op :: "'m env \<Rightarrow> unit prog" where
  "db_op env = (\<lambda>s. case db_fault env (ndb s) of
                      Some e \<Rightarrow> (Inl e, s\<lparr>ndb := ndb s + 1\<rparr>)
                    | None \<Rightarrow> (Inr (), s\<lparr>ndb := ndb s + 1\<rparr>))"

definition does_not_exist :: exn where
  "does_not_exist = Exn ''DoesNotExist'' ''BlastRun matching query does not exist.''"

text \<open>\<^verbatim>\<open>b = BlastRun.objects.get(id=blastrunid)\<close>\<close>

definition objects_get :: "'m env \<Rightarrow> nat \<Rightarrow> unit prog" where
  "objects_get env i =
     bnd (db_op env) (\<lambda>_.
     bnd (reads (\<lambda>s. case find (\<lambda>r. run_id r = i) (table s) of
                        None \<Rightarrow> Inl does_not_exist
                      | Some r \<Rightarrow> Inr r))
       bind_b)"

text \<open>\<^verbatim>\<open>b.save()\<close>: the row with the id of \<open>b\<close> is replaced by \<open>b\<close>.\<close>

definition db_save :: "blastrun \<Rightarrow> blastrun list \<Rightarrow> blastrun list" where
  "db_save b rows =
     (if \<exists>r \<in> set rows. run_id r = run_id b
      then map (\<lambda>r. if run_id r = run_id b then b else r) rows
      else rows @ [b])"

definition save_b :: "'m env \<Rightarrow> unit prog" where
  "save_b env =
     bnd get_b (\<lambda>b. bnd (db_op env) (\<lambda>_.
       modify (\<lambda>s. s\<lparr>table := db_save b (table s)\<rparr>)))"

text \<open>\<^verbatim>\<open>s = BlastSubject(subject_id=id, subject_seq=seq, blastrun=b); s.save()\<close>, for every
  pair of \<open>msa.all_sequences()\<close>.\<close>

fun save_subjects :: "'m env \<Rightarrow> (string \<times> string) list \<Rightarrow> unit prog" where
  "save_subjects env [] = ret ()"
| "save_subjects env ((i, sq) # ps) =
     bnd get_b (\<lambda>b. bnd (db_op env) (\<lambda>_.
       bnd (modify (\<lambda>s. s\<lparr>subjects := subjects s @ [(i, sq, run_id b)]\<rparr>))
         (\<lambda>_. save_subjects env ps)))"

text \<open>\<^verbatim>\<open>b.build_nj_tree()\<close>: the tree of the record and of its \<open>BlastSubject\<close> rows.\<close>

definition call_build_nj_tree :: "'m env \<Rightarrow> blastrun \<Rightarrow> string prog" where
  "call_build_nj_tree env b = reads (\<lambda>s. build_nj_tree env b (subjects s))"

section \<open>The hit filter\<close>

definition zero_division :: exn where
  "zero_division = Exn ''ZeroDivisionError'' ''float division by zero''"

text \<open>\<^verbatim>\<open>float(hsp.align_length) / blast_record.query_length\<close>\<close>

definition float_div :: "'m env \<Rightarrow> int \<Rightarrow> int \<Rightarrow> exn + real" where
  "float_div env a q =
     (if q = 0 then Inl zero_division else Inr (to_float env (real_of_int a / real_of_int q)))"

text \<open>The three nested loops over the records, their alignments and the pairs of each
  alignment. \<open>nm\<close> gives the name under which a hit is registered: the first token of the
  title in \<open>launch_ncbi_blast\<close>, \<open>newick_clean\<close> of the title in \<open>checkblastruns\<close>.\<close>

fun scan_hsps ::
  "'m env \<Rightarrow> (string \<Rightarrow> string) \<Rightarrow> real \<Rightarrow> real \<Rightarrow> int \<Rightarrow> string \<Rightarrow> hsp list \<Rightarrow> 'm \<Rightarrow> exn + 'm" where
  "scan_hsps env nm ev cov ql ttl [] msa = Inr msa"
| "scan_hsps env nm ev cov ql ttl (h # hs) msa =
     (let e_val = expect h in
      case float_div env (align_length h) ql of
        Inl e \<Rightarrow> Inl e
      | Inr leng \<Rightarrow>
          scan_hsps env nm ev cov ql ttl hs
            (if e_val < ev \<and> leng \<ge> cov then msa_add_hsp env (nm ttl) h msa else msa))"

fun scan_alignments ::
  "'m env \<Rightarrow> (string \<Rightarrow> string) \<Rightarrow> real \<Rightarrow> real \<Rightarrow> int \<Rightarrow> alignment list \<Rightarrow> 'm \<Rightarrow> exn + 'm" where
  "scan_alignments env nm ev cov ql [] msa = Inr msa"
| "scan_alignments env nm ev cov ql (a # as) msa =
     (case scan_hsps env nm ev cov ql (title a) (hsps a) msa of
        Inl e \<Rightarrow> Inl e
      | Inr msa' \<Rightarrow> scan_alignments env nm ev cov ql as msa')"

fun scan_records ::
  "'m env \<Rightarrow> (string \<Rightarrow> string) \<Rightarrow> real \<Rightarrow> real \<Rightarrow> blast_record list \<Rightarrow> 'm \<Rightarrow> exn + 'm" where
  "scan_records env nm ev cov [] msa = Inr msa"
| "scan_records env nm ev cov (r # rs) msa =
     (case scan_alignments env nm ev cov (query_length r) (alignments r) msa of
        Inl e \<Rightarrow> Inl e
      | Inr msa' \<Rightarrow> scan_records env nm ev cov rs msa')"

definition scan_stream ::
  "'m env \<Rightarrow> (string \<Rightarrow> string) \<Rightarrow> real \<Rightarrow> real \<Rightarrow> blast_stream \<Rightarrow> 'm \<Rightarrow> exn + 'm" where
  "scan_stream env nm ev cov st msa =
     (case scan_records env nm ev cov (fst st) msa of
        Inl e \<Rightarrow> Inl e
      | Inr msa' \<Rightarrow> (case snd st of None \<Rightarrow> Inr msa' | Some e \<Rightarrow> Inl e))"


section \<open>The tasks\<close>

text \<open>\<^verbatim>\<open>"%d" % n\<close> for a count.\<close>

fun str_of_nat :: "nat \<Rightarrow> string" where
  "str_of_nat n =
     (if n < 10 then [char_of (48 + n)]
      else str_of_nat (n div 10) @ [char_of (48 + n mod 10)])"

declare str_of_nat.simps [simp del]

text \<open>\<^verbatim>\<open>[^@]+@[^@]+\.[^@]+\<close>\<close>

definition rx_email :: "item list" where
  "rx_email =
     [Plus (CNotChar CHR ''@'')] @ lit ''@'' @ [Plus (CNotChar CHR ''@'')] @ lit ''.'' @
     [Plus (CNotChar CHR ''@'')]"

text \<open>\<^verbatim>\<open>b.email is not None and re.match(r"[^@]+@[^@]+\.[^@]+", b.email)\<close>\<close>

definition email_ok :: "blastrun \<Rightarrow> bool" where
  "email_ok b = (case email b of None \<Rightarrow> False | Some a \<Rightarrow> re_match False rx_email a)"

definition nl :: string where
  "nl = [CHR 0x0A]"

definition result_message :: "blastrun \<Rightarrow> string \<Rightarrow> string" where
  "result_message b url =
     ''Dear NGPhylogeny user, '' @ nl @ nl @
     (if status b \<noteq> FINISHED
      then ''Your NGPhylogeny BLAST job finished with errors.'' @ nl @ nl
      else ''Your NGPhylogeny BLAST job finished successfuly.'' @ nl) @
     ''Please visit http://'' @ ''ngphylogeny.fr'' @ url @ '' to check results'' @ nl @ nl @
     ''Thank you for using ngphylogeny.fr'' @ nl @ nl @
     ''NGPhylogeny.fr development team.'' @ nl"

definition result_mail :: "blastrun \<Rightarrow> string \<Rightarrow> mail" where
  "result_mail b url =
     \<lparr>mail_subject = ''NGPhylogeny.fr BLAST results'', mail_body = result_message b url,
      mail_from = ''ngphylogeny@pasteur.fr'',
      mail_to = (case email b of None \<Rightarrow> [] | Some a \<Rightarrow> [a])\<rparr>"

text \<open>The call of \<open>send_mail\<close>: the mail is recorded in \<open>outbox\<close>, sent or not.\<close>

definition do_send_mail :: "'m env \<Rightarrow> mail \<Rightarrow> unit prog" where
  "do_send_mail env m =
     bnd (modify (\<lambda>s. s\<lparr>outbox := outbox s @ [m]\<rparr>)) (\<lambda>_. call_unit (send_mail env m))"

text \<open>The \<open>try\<close> block that writes and sends the mail, with its two handlers: an
  \<open>SMTPException\<close> and any other exception are logged, nothing else.\<close>

definition send_result_mail :: "'m env \<Rightarrow> unit prog" where
  "send_result_mail env =
     try_except
       (bnd get_b (\<lambda>b. bnd (call (reverse_url env (run_id b))) (\<lambda>url.
          do_send_mail env (result_mail b url))))
       (\<lambda>e. if exn_class e = ''SMTPException''
            then log_line (''Problem with smtp server : '' @ exn_text e)
            else log_line (''Unknown Problem while sending e-mail: '' @ exn_text e))"

definition count_message :: "nat \<Rightarrow> string" where
  "count_message n = ''More than one record in the fasta file! '' @ str_of_nat n"

text \<open>\<^verbatim>\<open>b.status = BlastRun.ERROR\<close> followed by \<^verbatim>\<open>b.message = m\<close>.\<close>

definition set_error :: "string \<Rightarrow> unit prog" where
  "set_error m = block [set_b (\<lambda>b. b\<lparr>status := ERROR\<rparr>), set_b (\<lambda>b. b\<lparr>message := m\<rparr>)]"

text \<open>The handler \<^verbatim>\<open>except Exception as e\<close> of the two submit tasks.\<close>

definition submit_handler :: "exn \<Rightarrow> unit prog" where
  "submit_handler e = block [log_line (exn_text e), set_error (exn_text e)]"

subsection \<open>\<open>launch_ncbi_blast\<close>\<close>

text \<open>The branch \<^verbatim>\<open>if len(records) == 1\<close>.\<close>

definition ncbi_search ::
  "'m env \<Rightarrow> fasta \<Rightarrow> string \<Rightarrow> string \<Rightarrow> string \<Rightarrow> real \<Rightarrow> real \<Rightarrow> unit prog" where
  "ncbi_search env rec sequence prog db ev cov =
     block [
       set_b (\<lambda>b. b\<lparr>query_id := first_token (fa_id rec), query_seq := fa_seq rec,
                    evalue := ev, coverage := cov, database := db, blastprog := prog,
                    status := RUNNING\<rparr>),
       save_b env,
       bnd (call (qblast env prog db sequence)) (\<lambda>blast_records.
       bnd get_b (\<lambda>b.
       bnd (call (scan_stream env first_token ev cov blast_records
                    (msa_new env (query_id b) (query_seq b)))) (\<lambda>msa.
       block [
         save_subjects env (msa_all_sequences env msa),
         bnd (call_build_nj_tree env b) (\<lambda>t. set_b (\<lambda>b. b\<lparr>tree := t\<rparr>)),
         set_b (\<lambda>b. b\<lparr>status := FINISHED\<rparr>),
         save_b env])))]"

text \<open>\<^verbatim>\<open>if b.email is not None and re.match(...): try: ... send_mail(...) except ...\<close>\<close>

definition ncbi_notify :: "'m env \<Rightarrow> unit prog" where
  "ncbi_notify env = bnd get_b (\<lambda>b. if email_ok b then send_result_mail env else ret ())"

text \<open>\<^verbatim>\<open>if len(records) == 1: ... else: ...\<close>\<close>

definition ncbi_dispatch ::
  "'m env \<Rightarrow> fasta list \<Rightarrow> string \<Rightarrow> string \<Rightarrow> string \<Rightarrow> real \<Rightarrow> real \<Rightarrow> unit prog" where
  "ncbi_dispatch env records sequence prog db ev cov =
     (case records of
        [rec] \<Rightarrow> ncbi_search env rec sequence prog db ev cov
      | _ \<Rightarrow> set_error (count_message (length records)))"

text \<open>The body of the \<open>try\<close> statement.\<close>

definition ncbi_body ::
  "'m env \<Rightarrow> string \<Rightarrow> string \<Rightarrow> string \<Rightarrow> real \<Rightarrow> real \<Rightarrow> unit prog" where
  "ncbi_body env sequence prog db ev cov =
     bnd (call (seqio_parse env sequence)) (\<lambda>records.
     block [ncbi_dispatch env records sequence prog db ev cov, ncbi_notify env])"

definition launch_ncbi_blast ::
  "'m env \<Rightarrow> nat \<Rightarrow> string \<Rightarrow> string \<Rightarrow> string \<Rightarrow> real \<Rightarrow> real \<Rightarrow> unit prog" where
  "launch_ncbi_blast env blastrunid sequence prog db ev cov =
     block [
       log_line (''Blasting '' @ prog @ '' on '' @ db),
       objects_get env blastrunid,
       try_except (ncbi_body env sequence prog db ev cov) submit_handler,
       save_b env,
       sleep 30]"

subsection \<open>\<open>launch_pasteur_blast\<close>\<close>

text \<open>\<open>is_fasta_one_seq\<close>: the file has exactly one record; an exception of the parser
  is swallowed and gives \<open>False\<close>. The file is the temporary file that holds the text of
  the query.\<close>

definition is_fasta_one_seq :: "'m env \<Rightarrow> string \<Rightarrow> bool" where
  "is_fasta_one_seq env text =
     (case seqio_parse_file env text of Inl e \<Rightarrow> False | Inr rs \<Rightarrow> length rs = 1)"

text \<open>The branch \<^verbatim>\<open>if blast_type is not None\<close>.\<close>

definition pasteur_submit ::
  "'m env \<Rightarrow> string \<Rightarrow> string \<Rightarrow> string \<Rightarrow> string \<Rightarrow> string \<Rightarrow> real \<Rightarrow> unit prog" where
  "pasteur_submit env hist btype sequence prog db ev =
     block [
       call_unit (tmp_write env sequence),
       (if is_fasta_one_seq env sequence
        then bnd (call (upload_file env sequence hist)) (\<lambda>file_id.
             bnd (call (run_tool env hist prog file_id db btype ev)) (\<lambda>out_id.
               set_b (\<lambda>b. b\<lparr>history_fileid := out_id\<rparr>)))
        else set_error ''Bad input FASTA file format'')]"

definition pasteur_body ::
  "'m env \<Rightarrow> string \<Rightarrow> string \<Rightarrow> string \<Rightarrow> real \<Rightarrow> real \<Rightarrow> unit prog" where
  "pasteur_body env sequence prog db ev cov =
     bnd (call (seqio_parse env sequence)) (\<lambda>records.
       case records of
         [rec] \<Rightarrow>
           block [
             call_unit (galaxy_connection env),
             bnd (call (create_history env)) (\<lambda>hist.
             block [
               set_b (\<lambda>b. b\<lparr>history := hist, query_id := first_token (fa_id rec),
                            query_seq := fa_seq rec, evalue := ev, coverage := cov,
                            database := db, blastprog := prog, status := PENDING\<rparr>),
               save_b env,
               (case blast_type env prog of
                  Some btype \<Rightarrow> pasteur_submit env hist btype sequence prog db ev
                | None \<Rightarrow> set_error (''Wrong blast program '' @ prog)),
               save_b env])]
       | _ \<Rightarrow> set_error (count_message (length records)))"

definition launch_pasteur_blast ::
  "'m env \<Rightarrow> nat \<Rightarrow> string \<Rightarrow> string \<Rightarrow> string \<Rightarrow> real \<Rightarrow> real \<Rightarrow> unit prog" where
  "launch_pasteur_blast env blastrunid sequence prog db ev cov =
     block [
       log_line (''Blasting '' @ sequence @ '' with '' @ prog @ '' on '' @ db),
       objects_get env blastrunid,
       try_except (pasteur_body env sequence prog db ev cov) submit_handler,
       save_b env,
       sleep 30]"

subsection \<open>\<open>build_tree\<close>\<close>

definition build_tree_body :: "'m env \<Rightarrow> nat \<Rightarrow> unit prog" where
  "build_tree_body env blastrunid =
     block [
       objects_get env blastrunid,
       set_b (\<lambda>b. b\<lparr>status := RUNNING\<rparr>),
       set_b (\<lambda>b. b\<lparr>tree := []\<rparr>),
       save_b env,
       bnd get_b (\<lambda>b. bnd (call_build_nj_tree env b)
         (\<lambda>t. set_b (\<lambda>b. b\<lparr>tree := t\<rparr>))),
       set_b (\<lambda>b. b\<lparr>status := FINISHED\<rparr>),
       save_b env]"

definition build_tree_handler :: "'m env \<Rightarrow> exn \<Rightarrow> unit prog" where
  "build_tree_handler env e =
     block [log_line (exn_text e), set_error (exn_text e), save_b env]"

definition build_tree :: "'m env \<Rightarrow> nat \<Rightarrow> unit prog" where
  "build_tree env blastrunid =
     try_except (build_tree_body env blastrunid) (build_tree_handler env)"

subsection \<open>\<open>checkblastruns\<close>\<close>

text \<open>The branch \<^verbatim>\<open>if state == 'ok'\<close>.\<close>

definition poll_finish :: "'m env \<Rightarrow> unit prog" where
  "poll_finish env =
     block [
       set_b (\<lambda>b. b\<lparr>status := FINISHED\<rparr>),
       bnd get_b (\<lambda>b.
       bnd (call (download_dataset env (history_fileid b))) (\<lambda>blast_records.
       bnd (call (scan_stream env newick_clean (evalue b) (coverage b) blast_records
                    (msa_new env (query_id b) (query_seq b)))) (\<lambda>msa.
       block [
         save_subjects env (msa_all_sequences env msa),
         bnd (call_build_nj_tree env b) (\<lambda>t. set_b (\<lambda>b. b\<lparr>tree := t\<rparr>)),
         set_b (\<lambda>b. b\<lparr>status := FINISHED\<rparr>),
         save_b env])))]"

text \<open>The mail block of the loop, guarded by the status as well.\<close>

definition poll_notify :: "'m env \<Rightarrow> unit prog" where
  "poll_notify env =
     bnd get_b (\<lambda>b.
       if email_ok b \<and> (status b = ERROR \<or> status b = FINISHED)
       then send_result_mail env else ret ())"

text \<open>The body of the \<open>for\<close> loop, for one record \<open>r\<close> of the query: first the part
  up to the \<open>b.save()\<close> that follows the \<open>if\<close> on the remote state, then the mail block.\<close>

definition poll_update :: "'m env \<Rightarrow> blastrun \<Rightarrow> unit prog" where
  "poll_update env r =
     block [
       bind_b r,
       bnd get_b (\<lambda>b. bnd (call (show_dataset env (history b) (history_fileid b)))
         (\<lambda>(state, infos).
           block [
             set_b (\<lambda>b. b\<lparr>message := infos\<rparr>),
             (if state = ''ok'' then poll_finish env
              else if state = ''queued'' \<or> state = ''new''
                   then set_b (\<lambda>b. b\<lparr>status := PENDING\<rparr>)
              else if state = ''running'' then set_b (\<lambda>b. b\<lparr>status := RUNNING\<rparr>)
              else set_b (\<lambda>b. b\<lparr>status := ERROR\<rparr>)),
             save_b env]))]"

definition poll_one :: "'m env \<Rightarrow> blastrun \<Rightarrow> unit prog" where
  "poll_one env r = block [poll_update env r, poll_notify env]"

fun poll_loop :: "'m env \<Rightarrow> blastrun list \<Rightarrow> unit prog" where
  "poll_loop env [] = ret ()"
| "poll_loop env (r # rs) = bnd (poll_one env r) (\<lambda>_. poll_loop env rs)"

text \<open>The rows of the query: not deleted, of the Pasteur server, pending or running.\<close>

definition poll_query :: "'m env \<Rightarrow> (blastrun list) prog" where
  "poll_query env =
     bnd (db_op env) (\<lambda>_.
       reads (\<lambda>s. Inr (filter (\<lambda>b. \<not> deleted b \<and> server b = PASTEUR \<and>
                                  (status b = PENDING \<or> status b = RUNNING)) (table s))))"

definition poll_body :: "'m env \<Rightarrow> unit prog" where
  "poll_body env =
     block [call_unit (galaxy_connection env),
            bnd (poll_query env) (poll_loop env)]"

definition poll_handler :: "'m env \<Rightarrow> exn \<Rightarrow> unit prog" where
  "poll_handler env e =
     block [set_error (exn_text e),
            save_b env,
            log_line (''Error while checking blast run: '' @ exn_text e)]"

text \<open>\<open>acquire_lock\<close> is \<open>cache.add\<close>: it sets the key and answers \<open>True\<close> when the key
  is not there. \<open>release_lock\<close> is \<open>cache.delete\<close>.\<close>

definition acquire_lock :: "bool prog" where
  "acquire_lock = (\<lambda>s. if lock s then (Inr False, s) else (Inr True, s\<lparr>lock := True\<rparr>))"

definition release_lock :: "unit prog" where
  "release_lock = modify (\<lambda>s. s\<lparr>lock := False\<rparr>)"

definition checkblastruns :: "'m env \<Rightarrow> unit prog" where
  "checkblastruns env =
     bnd (log_line ''Start pasteur blast task check'') (\<lambda>_.
     bnd acquire_lock (\<lambda>got.
       if got
       then block [
              try_except (poll_body env) (poll_handler env),
              release_lock,
              log_line ''Pasteur blast runs checked'']
       else ret ()))"

section \<open>A sample of the collaborators\<close>

text \<open>
  Modelled from the spec: \<open>PseudoMSA\<close> (\<open>msa.py\<close> is not among the sources) holds the
  query and a mapping from the name of a subject to its sequence, deduplicated by name,
  the last hit of a name winning; \<open>all_sequences\<close> gives the pairs, the query included.
\<close>

fun msa_put :: "string \<Rightarrow> string \<Rightarrow> (string \<times> string) list \<Rightarrow> (string \<times> string) list" where
  "msa_put n sq [] = [(n, sq)]"
| "msa_put n sq ((k, v) # m) = (if k = n then (k, sq) # m else (k, v) # msa_put n sq m)"

text \<open>An environment in which every collaborator answers and none fails: the closed
  instances below start from it.\<close>

definition demo_env :: "(string \<times> string) list env" where
  "demo_env =
     \<lparr>db_fault = (\<lambda>n. None),
      seqio_parse = (\<lambda>t. Inr [\<lparr>fa_id = ''query1 sample'', fa_seq = ''ACGT''\<rparr>]),
      seqio_parse_file = (\<lambda>t. Inr [\<lparr>fa_id = ''query1 sample'', fa_seq = ''ACGT''\<rparr>]),
      qblast = (\<lambda>p d q. Inr ([], None)),
      msa_new = (\<lambda>i sq. [(i, sq)]),
      msa_add_hsp = (\<lambda>n h m. msa_put n (sbjct h) m),
      msa_all_sequences = (\<lambda>m. m),
      build_nj_tree = (\<lambda>b ss. Inr ''(query1);''),
      reverse_url = (\<lambda>i. Inr (''/blast/'' @ str_of_nat i)),
      send_mail = (\<lambda>m. None),
      galaxy_connection = None,
      create_history = Inr ''h1'',
      blast_type = (\<lambda>p. Some ''blastn''),
      tmp_write = (\<lambda>t. None),
      upload_file = (\<lambda>t h. Inr ''f1''),
      run_tool = (\<lambda>h p f d t e. Inr ''f2''),
      show_dataset = (\<lambda>h f. Inr (''ok'', [])),
      download_dataset = (\<lambda>f. Inr ([], None)),
      to_float = (\<lambda>x. x)\<rparr>"

definition demo_run :: blastrun where
  "demo_run =
     \<lparr>run_id = 7, email = Some ''user@example.org'', status = PENDING, message = [],
      tree = [], query_id = ''query1'', query_seq = ''ACGT'', evalue = 1 / 100,
      coverage = 8 / 10, database = ''nt'', blastprog = ''blastn'', history = ''h1'',
      history_fileid = ''f2'', deleted = False, server = PASTEUR\<rparr>"

definition demo_state :: state where
  "demo_state =
     \<lparr>var_b = None, table = [demo_run], subjects = [], outbox = [], logged = [],
      lock = False, ndb = 0, slept = 0\<rparr>"

text \<open>The filter in the words of the specification: a hit is kept when its expectation
  value is below the threshold and its fraction of the query length is at least the
  coverage threshold.\<close>

definition spec_keeps :: "'m env \<Rightarrow> real \<Rightarrow> real \<Rightarrow> int \<Rightarrow> hsp \<Rightarrow> bool" where
  "spec_keeps env ev cov ql h =
     (expect h < ev \<and> to_float env (real_of_int (align_length h) / real_of_int ql) \<ge> cov)"

text \<open>Every hit of a list of records, in the order of the loops, with the title of its
  alignment and the query length of its record.\<close>

definition all_hits :: "blast_record list \<Rightarrow> (string \<times> hsp \<times> int) list" where
  "all_hits rs =
     concat (map (\<lambda>r. concat (map (\<lambda>a. map (\<lambda>h. (title a, h, query_length r)) (hsps a))
                                    (alignments r))) rs)"

text \<open>The hits registered one after the other by \<open>add_hsp\<close>.\<close>

definition register :: "'m env \<Rightarrow> (string \<Rightarrow> string) \<Rightarrow> 'm \<Rightarrow> (string \<times> hsp \<times> int) list \<Rightarrow> 'm" where
  "register env nm msa hits = foldl (\<lambda>m (t, h, q). msa_add_hsp env (nm t) h m) msa hits"

lemma register_append:
  "register env nm msa (xs @ ys) = register env nm (register env nm msa xs) ys"
  by (simp add: register_def)

lemma scan_hsps_register:
  "ql \<noteq> 0 \<Longrightarrow>
   scan_hsps env nm ev cov ql ttl hs msa =
     Inr (register env nm msa
            (filter (\<lambda>(t, h, q). spec_keeps env ev cov q h) (map (\<lambda>h. (ttl, h, ql)) hs)))"
proof (induction hs arbitrary: msa)
  case Nil
  show ?case by (simp add: register_def)
next
  case (Cons h hs)
  then show ?case
    by (simp add: float_div_def spec_keeps_def register_def)
qed

lemma scan_alignments_register:
  "ql \<noteq> 0 \<Longrightarrow>
   scan_alignments env nm ev cov ql as msa =
     Inr (register env nm msa
            (filter (\<lambda>(t, h, q). spec_keeps env ev cov q h)
               (concat (map (\<lambda>a. map (\<lambda>h. (title a, h, ql)) (hsps a)) as))))"
proof (induction as arbitrary: msa)
  case Nil
  show ?case by (simp add: register_def)
next
  case (Cons a as)
  then show ?case
    by (simp add: scan_hsps_register register_append)
qed

lemma scan_alignments_no_hits:
  "\<forall>a \<in> set as. hsps a = [] \<Longrightarrow> scan_alignments env nm ev cov ql as msa = Inr msa"
  by (induction as) simp_all

lemma scan_records_register:
  "\<forall>(t, h, q) \<in> set (all_hits rs). q \<noteq> 0 \<Longrightarrow>
   scan_records env nm ev cov rs msa =
     Inr (register env nm msa (filter (\<lambda>(t, h, q). spec_keeps env ev cov q h) (all_hits rs)))"
proof (induction rs arbitrary: msa)
  case Nil
  show ?case by (simp add: register_def all_hits_def)
next
  case (Cons r rs)
  have rest: "\<forall>(t, h, q) \<in> set (all_hits rs). q \<noteq> 0"
    using Cons.prems by (auto simp: all_hits_def)
  show ?case
  proof (cases "query_length r = 0")
    case False
    have "scan_alignments env nm ev cov (query_length r) (alignments r) msa =
       Inr (register env nm msa (filter (\<lambda>(t, h, q). spec_keeps env ev cov q h)
              (all_hits [r])))"
      using scan_alignments_register[OF False] by (simp add: all_hits_def)
    moreover have "all_hits (r # rs) = all_hits [r] @ all_hits rs" by (simp add: all_hits_def)
    ultimately show ?thesis using Cons.IH[OF rest] by (simp add: register_append)
  next
    case True
    have e: "\<forall>a \<in> set (alignments r). hsps a = []"
    proof (rule ccontr)
      assume "\<not> (\<forall>a \<in> set (alignments r). hsps a = [])"
      then obtain a h where "a \<in> set (alignments r)" "h \<in> set (hsps a)"
        by (meson last_in_set)
      then have "(title a, h, query_length r) \<in> set (all_hits (r # rs))"
        by (auto simp: all_hits_def)
      with Cons.prems True show False by auto
    qed
    then have "all_hits (r # rs) = all_hits rs" by (simp add: all_hits_def)
    with scan_alignments_no_hits[OF e, of env nm ev cov "query_length r" msa] Cons.IH[OF rest]
    show ?thesis by simp
  qed
qed

section \<open>Reasoning about the tasks\<close>

text \<open>\<open>valid P m Q E\<close>: from a state in \<open>P\<close>, the statement \<open>m\<close> either returns \<open>x\<close> in a
  state in \<open>Q x\<close> or raises \<open>e\<close> in a state in \<open>E e\<close>.\<close>

definition valid ::
  "(state \<Rightarrow> bool) \<Rightarrow> 'a prog \<Rightarrow> ('a \<Rightarrow> state \<Rightarrow> bool) \<Rightarrow> (exn \<Rightarrow> state \<Rightarrow> bool) \<Rightarrow> bool" where
  "valid P m Q E = (\<forall>s. P s \<longrightarrow> (case m s of (Inr x, s') \<Rightarrow> Q x s' | (Inl e, s') \<Rightarrow> E e s'))"

lemma validI:
  "(\<And>s. P s \<Longrightarrow> (case m s of (Inr x, s') \<Rightarrow> Q x s' | (Inl e, s') \<Rightarrow> E e s')) \<Longrightarrow> valid P m Q E"
  by (simp add: valid_def)

lemma validD_Inr: "valid P m Q E \<Longrightarrow> P s \<Longrightarrow> m s = (Inr x, s') \<Longrightarrow> Q x s'"
  by (fastforce simp: valid_def)

lemma validD_Inl: "valid P m Q E \<Longrightarrow> P s \<Longrightarrow> m s = (Inl e, s') \<Longrightarrow> E e s'"
  by (fastforce simp: valid_def)

lemma validE:
  "valid P m Q E \<Longrightarrow> P s \<Longrightarrow> (case m s of (Inl e, s') \<Rightarrow> E e s' | (Inr x, s') \<Rightarrow> Q x s')"
  by (simp add: valid_def)

lemma valid_returns:
  "valid P m Q (\<lambda>_ _. False) \<Longrightarrow> P s \<Longrightarrow> \<exists>x s'. m s = (Inr x, s') \<and> Q x s'"
proof -
  assume v: "valid P m Q (\<lambda>_ _. False)" and p: "P s"
  obtain r s' where m: "m s = (r, s')" by (cases "m s")
  from validE[OF v p] m show ?thesis by (cases r) simp_all
qed

lemma valid_conseq: "valid P' m Q E \<Longrightarrow> (\<And>s. P s \<Longrightarrow> P' s) \<Longrightarrow> valid P m Q E"
  by (simp add: valid_def)

lemma valid_post:
  "valid P m Q' E' \<Longrightarrow> (\<And>x s. Q' x s \<Longrightarrow> Q x s) \<Longrightarrow> (\<And>e s. E' e s \<Longrightarrow> E e s) \<Longrightarrow> valid P m Q E"
  by (fastforce simp: valid_def split: sum.splits prod.splits)

lemma valid_bnd:
  "(\<And>x. valid (R x) (f x) Q E) \<Longrightarrow> valid P m R E \<Longrightarrow> valid P (bnd m f) Q E"
  by (fastforce simp: valid_def bnd_def split: sum.splits prod.splits)

lemma valid_block_Nil: "valid (Q ()) (block []) Q E"
  by (simp add: valid_def ret_def)

lemma valid_block_Cons:
  "valid R (block ms) Q E \<Longrightarrow> valid P m (\<lambda>_. R) E \<Longrightarrow> valid P (block (m # ms)) Q E"
  by (fastforce simp: valid_def bnd_def split: sum.splits prod.splits)

lemma valid_try:
  "(\<And>e. valid (R e) (h e) Q E) \<Longrightarrow> valid P m Q R \<Longrightarrow> valid P (try_except m h) Q E"
  by (fastforce simp: valid_def try_except_def split: sum.splits prod.splits)

lemma valid_if:
  "valid P1 m1 Q E \<Longrightarrow> valid P2 m2 Q E \<Longrightarrow>
   valid (\<lambda>s. if c then P1 s else P2 s) (if c then m1 else m2) Q E"
  by simp

lemma valid_case_option:
  "valid P1 m1 Q E \<Longrightarrow> (\<And>x. valid (P2 x) (m2 x) Q E) \<Longrightarrow>
   valid (\<lambda>s. case v of None \<Rightarrow> P1 s | Some x \<Rightarrow> P2 x s)
         (case v of None \<Rightarrow> m1 | Some x \<Rightarrow> m2 x) Q E"
  by (cases v) simp_all

lemma valid_case_list:
  "valid P1 m1 Q E \<Longrightarrow> (\<And>x xs. valid (P2 x xs) (m2 x xs) Q E) \<Longrightarrow>
   valid (\<lambda>s. case v of [] \<Rightarrow> P1 s | x # xs \<Rightarrow> P2 x xs s)
         (case v of [] \<Rightarrow> m1 | x # xs \<Rightarrow> m2 x xs) Q E"
  by (cases v) simp_all

lemma valid_case_prod:
  "(\<And>a b. valid (P2 a b) (m2 a b) Q E) \<Longrightarrow>
   valid (\<lambda>s. case v of (a, b) \<Rightarrow> P2 a b s) (case v of (a, b) \<Rightarrow> m2 a b) Q E"
  by (cases v) simp_all

lemma valid_ret: "valid (Q x) (ret x) Q E"
  by (simp add: valid_def ret_def)

lemma valid_raise: "valid (E e) (raise e) Q E"
  by (simp add: valid_def raise_def)

lemma valid_call:
  "valid (\<lambda>s. case r of Inr x \<Rightarrow> Q x s | Inl e \<Rightarrow> E e s) (call r) Q E"
  by (simp add: valid_def call_def split: sum.splits)

lemma valid_call_unit:
  "valid (\<lambda>s. case r of None \<Rightarrow> Q () s | Some e \<Rightarrow> E e s) (call_unit r) Q E"
  by (simp add: valid_def call_unit_def ret_def raise_def split: option.splits)

lemma valid_modify: "valid (\<lambda>s. Q () (f s)) (modify f) Q E"
  by (simp add: valid_def modify_def)

lemma valid_reads:
  "valid (\<lambda>s. case f s of Inr x \<Rightarrow> Q x s | Inl e \<Rightarrow> E e s) (reads f) Q E"
  by (simp add: valid_def reads_def split: sum.splits)

lemma valid_log_line: "valid (\<lambda>s. Q () (s\<lparr>logged := logged s @ [l]\<rparr>)) (log_line l) Q E"
  by (simp add: valid_def log_line_def)

lemma valid_sleep: "valid (\<lambda>s. Q () (s\<lparr>slept := slept s + n\<rparr>)) (sleep n) Q E"
  by (simp add: valid_def sleep_def)

lemma valid_get_b:
  "valid (\<lambda>s. case var_b s of None \<Rightarrow> E unbound_b s | Some b \<Rightarrow> Q b s) get_b Q E"
  by (simp add: valid_def get_b_def split: option.splits)

lemma valid_set_b:
  "valid (\<lambda>s. case var_b s of None \<Rightarrow> E unbound_b s
              | Some b \<Rightarrow> Q () (s\<lparr>var_b := Some (f b)\<rparr>)) (set_b f) Q E"
  by (simp add: valid_def set_b_def split: option.splits)

lemma valid_bind_b: "valid (\<lambda>s. Q () (s\<lparr>var_b := Some r\<rparr>)) (bind_b r) Q E"
  by (simp add: valid_def bind_b_def)

lemma valid_db_op:
  "valid (\<lambda>s. case db_fault env (ndb s) of
                Some e \<Rightarrow> E e (s\<lparr>ndb := ndb s + 1\<rparr>)
              | None \<Rightarrow> Q () (s\<lparr>ndb := ndb s + 1\<rparr>)) (db_op env) Q E"
  by (simp add: valid_def db_op_def split: option.splits)

lemma valid_acquire_lock:
  "valid (\<lambda>s. if lock s then Q False s else Q True (s\<lparr>lock := True\<rparr>)) acquire_lock Q E"
  by (simp add: valid_def acquire_lock_def)

lemmas wp =
  valid_bnd valid_block_Nil valid_block_Cons valid_try valid_if valid_case_option
  valid_case_list valid_case_prod valid_ret valid_raise valid_call valid_call_unit
  valid_modify valid_reads valid_log_line valid_sleep valid_get_b valid_set_b valid_bind_b
  valid_db_op valid_acquire_lock

text \<open>The statements defined from these.\<close>

lemma valid_set_error:
  "valid (\<lambda>s. case var_b s of None \<Rightarrow> E unbound_b s
              | Some b \<Rightarrow> Q () (s\<lparr>var_b := Some (b\<lparr>status := ERROR, message := m\<rparr>)\<rparr>))
         (set_error m) Q E"
  by (simp add: valid_def set_error_def bnd_def set_b_def ret_def split: option.splits)

lemma valid_save_b:
  "valid (\<lambda>s. case var_b s of None \<Rightarrow> E unbound_b s
              | Some b \<Rightarrow>
                 (case db_fault env (ndb s) of
                    Some e \<Rightarrow> E e (s\<lparr>ndb := ndb s + 1\<rparr>)
                  | None \<Rightarrow> Q () (s\<lparr>ndb := ndb s + 1, table := db_save b (table s)\<rparr>)))
         (save_b env) Q E"
  by (simp add: valid_def save_b_def bnd_def get_b_def db_op_def modify_def
      split: option.splits)

lemma valid_objects_get:
  "valid (\<lambda>s. case db_fault env (ndb s) of
                Some e \<Rightarrow> E e (s\<lparr>ndb := ndb s + 1\<rparr>)
              | None \<Rightarrow>
                 (case find (\<lambda>r. run_id r = i) (table s) of
                    None \<Rightarrow> E does_not_exist (s\<lparr>ndb := ndb s + 1\<rparr>)
                  | Some r \<Rightarrow> Q () (s\<lparr>ndb := ndb s + 1, var_b := Some r\<rparr>)))
         (objects_get env i) Q E"
  by (simp add: valid_def objects_get_def bnd_def db_op_def reads_def bind_b_def
      split: option.splits)


text \<open>The loop that saves the subjects touches the counter of database operations and
  the rows of \<open>BlastSubject\<close> only; the mail block touches the outbox and the log only,
  and always returns.\<close>

lemma state_same [simp]: "s\<lparr>ndb := ndb s, subjects := subjects s\<rparr> = (s :: state)"
  by simp

lemma valid_save_subjects:
  "valid (\<lambda>s. \<forall>n ss. Q () (s\<lparr>ndb := n, subjects := ss\<rparr>) \<and> (\<forall>e. E e (s\<lparr>ndb := n, subjects := ss\<rparr>)))
         (save_subjects env ps) Q E"
proof (induction ps)
  case Nil
  show ?case
  proof (rule validI)
    fix s
    assume "\<forall>n ss. Q () (s\<lparr>ndb := n, subjects := ss\<rparr>) \<and> (\<forall>e. E e (s\<lparr>ndb := n, subjects := ss\<rparr>))"
    then have "Q () (s\<lparr>ndb := ndb s, subjects := subjects s\<rparr>)" by (elim allE conjE)
    then have "Q () s" by (simp only: state_same)
    then show "case save_subjects env [] s of (Inl e, s') \<Rightarrow> E e s' | (Inr x, s') \<Rightarrow> Q x s'"
      by (simp add: ret_def)
  qed
next
  case (Cons p ps)
  obtain i sq where p: "p = (i, sq)" by (cases p)
  show ?case
    unfolding p
  proof (rule validI)
    fix s
    assume a: "\<forall>n ss. Q () (s\<lparr>ndb := n, subjects := ss\<rparr>) \<and> (\<forall>e. E e (s\<lparr>ndb := n, subjects := ss\<rparr>))"
    have ae: "E e (s\<lparr>ndb := n, subjects := ss\<rparr>)" for e n ss using a by (elim allE conjE)
    show "case save_subjects env ((i, sq) # ps) s of
            (Inl e, s') \<Rightarrow> E e s' | (Inr x, s') \<Rightarrow> Q x s'"
    proof (cases "var_b s")
      case None
      from ae[where e=unbound_b and n="ndb s" and ss="subjects s"] have "E unbound_b s" by (simp only: state_same)
      with None show ?thesis by (simp add: bnd_def get_b_def)
    next
      case (Some b)
      note b = this
      show ?thesis
      proof (cases "db_fault env (ndb s)")
        case (Some e)
        from ae[where e=e and n="ndb s + 1" and ss="subjects s"] have "E e (s\<lparr>ndb := ndb s + 1\<rparr>)" by simp
        with Some b show ?thesis by (simp add: bnd_def get_b_def db_op_def)
      next
        case None
        define t where "t = s\<lparr>ndb := ndb s + 1, subjects := subjects s @ [(i, sq, run_id b)]\<rparr>"
        have "t\<lparr>ndb := n, subjects := ss\<rparr> = s\<lparr>ndb := n, subjects := ss\<rparr>" for n ss
          by (simp add: t_def)
        with a have "\<forall>n ss. Q () (t\<lparr>ndb := n, subjects := ss\<rparr>) \<and> (\<forall>e. E e (t\<lparr>ndb := n, subjects := ss\<rparr>))"
          by simp
        from validE[OF Cons.IH this] have r: "case save_subjects env ps t of
            (Inl e, s') \<Rightarrow> E e s' | (Inr x, s') \<Rightarrow> Q x s'" .
        have "save_subjects env ((i, sq) # ps) s = save_subjects env ps t"
          using None b by (simp add: bnd_def get_b_def db_op_def modify_def t_def)
        with r show ?thesis by (simp only:)
      qed
    qed
  qed
qed

lemma valid_send_result_mail:
  "valid (\<lambda>s. \<forall>ms ls. Q () (s\<lparr>outbox := ms, logged := ls\<rparr>)) (send_result_mail env) Q E"
proof (rule validI)
  fix s
  assume a: "\<forall>ms ls. Q () (s\<lparr>outbox := ms, logged := ls\<rparr>)"
  have u: "s\<lparr>logged := l\<rparr> = s\<lparr>outbox := outbox s, logged := l\<rparr>"
    "s\<lparr>outbox := ms\<rparr> = s\<lparr>outbox := ms, logged := logged s\<rparr>" for l ms by simp_all
  have q: "Q () (s\<lparr>logged := l\<rparr>)" "Q () (s\<lparr>outbox := ms\<rparr>)" "Q () (s\<lparr>outbox := ms, logged := l\<rparr>)"
    for l ms using a by (metis u(1), metis u(2), blast)
  show "case send_result_mail env s of (Inl e, s') \<Rightarrow> E e s' | (Inr x, s') \<Rightarrow> Q x s'"
    by (auto simp: send_result_mail_def try_except_def bnd_def get_b_def call_def
        do_send_mail_def modify_def call_unit_def ret_def raise_def log_line_def q
        split: option.splits sum.splits)
qed


lemmas wp_all = wp valid_set_error valid_save_b valid_objects_get valid_save_subjects
  valid_send_result_mail

lemma not_single_case:
  "length xs \<noteq> 1 \<Longrightarrow> (case xs of [] \<Rightarrow> B | [x] \<Rightarrow> A x | x # y # zs \<Rightarrow> B) = B"
  by (cases xs) (auto split: list.splits)

lemma find_run_id: "find (\<lambda>r. run_id r = i) rows = Some r \<Longrightarrow> run_id r = i"
  by (induction rows) (auto split: if_splits)

lemma find_map_replace:
  "\<exists>r \<in> set rows. run_id r = run_id b \<Longrightarrow>
   find (\<lambda>r. run_id r = run_id b) (map (\<lambda>r. if run_id r = run_id b then b else r) rows) = Some b"
  by (induction rows) auto

lemma find_append_new:
  "\<not> (\<exists>r \<in> set rows. run_id r = run_id b) \<Longrightarrow>
   find (\<lambda>r. run_id r = run_id b) (rows @ [b]) = Some b"
  by (induction rows) auto

lemma find_db_save_same: "find (\<lambda>r. run_id r = run_id b) (db_save b rows) = Some b"
  by (simp add: db_save_def find_map_replace find_append_new)

lemma find_db_save:
  "run_id b = i \<Longrightarrow> find (\<lambda>r. run_id r = i) (db_save b rows) = Some b"
  using find_db_save_same[of b rows] by simp

lemma find_db_save_other:
  "run_id b \<noteq> i \<Longrightarrow> find (\<lambda>r. run_id r = i) (db_save b rows) = find (\<lambda>r. run_id r = i) rows"
proof (cases "\<exists>r \<in> set rows. run_id r = run_id b")
  case True
  assume i: "run_id b \<noteq> i"
  then have "find (\<lambda>r. run_id r = i) (map (\<lambda>r. if run_id r = run_id b then b else r) rows)
      = find (\<lambda>r. run_id r = i) rows"
    by (induction rows) auto
  with True show ?thesis by (simp add: db_save_def)
next
  case False
  assume i: "run_id b \<noteq> i"
  then have "find (\<lambda>r. run_id r = i) (rows @ [b]) = find (\<lambda>r. run_id r = i) rows"
    by (induction rows) auto
  with False show ?thesis by (simp add: db_save_def)
qed

definition count_error_pre :: "'m env \<Rightarrow> nat \<Rightarrow> state \<Rightarrow> bool" where
  "count_error_pre env i s =
     (find (\<lambda>r. run_id r = i) (table s) \<noteq> None \<and> db_fault env (ndb s) = None
      \<and> db_fault env (Suc (ndb s)) = None)"

definition count_error_post :: "nat \<Rightarrow> nat \<Rightarrow> state \<Rightarrow> bool" where
  "count_error_post i n s =
     (\<exists>b. find (\<lambda>r. run_id r = i) (table s) = Some b \<and> var_b s = Some b \<and> status b = ERROR
        \<and> message b = ''More than one record in the fasta file! '' @ str_of_nat n)"

lemma bnd_call_Inr: "bnd (call (Inr x)) f = f x"
  by (rule ext) (simp add: bnd_def call_def)

lemma ncbi_body_not_single:
  assumes "seqio_parse env sequence = Inr records" and "length records \<noteq> 1"
  shows "ncbi_body env sequence prog db ev cov =
           block [set_error (count_message (length records)), ncbi_notify env]"
  unfolding ncbi_body_def ncbi_dispatch_def assms(1) bnd_call_Inr
    not_single_case[OF assms(2)] ..

lemma pasteur_body_not_single:
  assumes "seqio_parse env sequence = Inr records" and "length records \<noteq> 1"
  shows "pasteur_body env sequence prog db ev cov = set_error (count_message (length records))"
  unfolding pasteur_body_def assms(1) bnd_call_Inr not_single_case[OF assms(2)] ..

lemma ncbi_count_error:
  assumes "seqio_parse env sequence = Inr records" and "length records \<noteq> 1"
  shows "valid (count_error_pre env i) (launch_ncbi_blast env i sequence prog db ev cov)
           (\<lambda>_. count_error_post i (length records)) (\<lambda>_ _. False)"
  unfolding launch_ncbi_blast_def ncbi_body_not_single[OF assms] ncbi_notify_def
    submit_handler_def
  apply (rule valid_conseq)
   apply (rule wp_all)+
  apply (auto simp: count_error_pre_def count_error_post_def count_message_def find_db_save
      dest: find_run_id split: option.splits)
  done

lemma pasteur_count_error:
  assumes "seqio_parse env sequence = Inr records" and "length records \<noteq> 1"
  shows "valid (count_error_pre env i) (launch_pasteur_blast env i sequence prog db ev cov)
           (\<lambda>_. count_error_post i (length records)) (\<lambda>_ _. False)"
  unfolding launch_pasteur_blast_def pasteur_body_not_single[OF assms] submit_handler_def
  apply (rule valid_conseq)
   apply (rule wp_all)+
  apply (auto simp: count_error_pre_def count_error_post_def count_message_def find_db_save
      dest: find_run_id split: option.splits)
  done


text \<open>
  Claim C7. When the job record exists and the two database operations of the run
  succeed, a submission whose FASTA text parses to a number of records other than one
  (zero included) ends, through either backend, with the record in the status \<open>ERROR\<close>
  and with the message \<open>More than one record in the fasta file! n\<close>, where \<open>n\<close> is the
  number of records in decimal; the record is saved so.
\<close>

theorem record_count_error:
  assumes "seqio_parse env sequence = Inr records" and "length records \<noteq> 1"
    and "find (\<lambda>r. run_id r = i) (table s) \<noteq> None"
    and "db_fault env (ndb s) = None" and "db_fault env (Suc (ndb s)) = None"
  shows "(\<exists>s' b. launch_ncbi_blast env i sequence prog db ev cov s = (Inr (), s')
            \<and> find (\<lambda>r. run_id r = i) (table s') = Some b \<and> var_b s' = Some b
            \<and> status b = ERROR
            \<and> message b = ''More than one record in the fasta file! '' @ str_of_nat (length records))
       \<and> (\<exists>s' b. launch_pasteur_blast env i sequence prog db ev cov s = (Inr (), s')
            \<and> find (\<lambda>r. run_id r = i) (table s') = Some b \<and> var_b s' = Some b
            \<and> status b = ERROR
            \<and> message b = ''More than one record in the fasta file! '' @ str_of_nat (length records))"
proof -
  have p: "count_error_pre env i s" using assms(3-5) by (simp add: count_error_pre_def)
  from valid_returns[OF ncbi_count_error[OF assms(1,2), of i prog db ev cov] p]
  have a: "\<exists>s'. launch_ncbi_blast env i sequence prog db ev cov s = (Inr (), s')
      \<and> count_error_post i (length records) s'" by simp
  from valid_returns[OF pasteur_count_error[OF assms(1,2), of i prog db ev cov] p]
  have b: "\<exists>s'. launch_pasteur_blast env i sequence prog db ev cov s = (Inr (), s')
      \<and> count_error_post i (length records) s'" by simp
  from a b show ?thesis unfolding count_error_post_def by blast
qed

definition two_records_env :: "(string \<times> string) list env" where
  "two_records_env =
     demo_env\<lparr>seqio_parse :=
       (\<lambda>t. Inr [\<lparr>fa_id = ''q1'', fa_seq = ''ACGT''\<rparr>, \<lparr>fa_id = ''q2'', fa_seq = ''TTGA''\<rparr>])\<rparr>"

theorem record_count_error_witness:
  "(\<exists>s' b. launch_ncbi_blast two_records_env 7 ''two records'' ''blastn'' ''nt'' (1 / 100) (8 / 10)
              demo_state = (Inr (), s')
            \<and> find (\<lambda>r. run_id r = 7) (table s') = Some b \<and> var_b s' = Some b
            \<and> status b = ERROR
            \<and> message b = ''More than one record in the fasta file! 2'')
   \<and> (\<exists>s' b. launch_pasteur_blast two_records_env 7 ''two records'' ''blastn'' ''nt'' (1 / 100)
              (8 / 10) demo_state = (Inr (), s')
            \<and> find (\<lambda>r. run_id r = 7) (table s') = Some b \<and> var_b s' = Some b
            \<and> status b = ERROR
            \<and> message b = ''More than one record in the fasta file! 2'')"
proof -
  have 1: "seqio_parse two_records_env ''two records'' =
      Inr [\<lparr>fa_id = ''q1'', fa_seq = ''ACGT''\<rparr>, \<lparr>fa_id = ''q2'', fa_seq = ''TTGA''\<rparr>]"
    by (simp add: two_records_env_def demo_env_def)
  have 2: "length [\<lparr>fa_id = ''q1'', fa_seq = ''ACGT''\<rparr>, \<lparr>fa_id = ''q2'', fa_seq = ''TTGA''\<rparr>] \<noteq> 1"
    by simp
  have 3: "find (\<lambda>r. run_id r = 7) (table demo_state) \<noteq> None"
    by (simp add: demo_state_def demo_run_def)
  have 4: "db_fault two_records_env (ndb demo_state) = None"
    "db_fault two_records_env (Suc (ndb demo_state)) = None"
    by (simp_all add: two_records_env_def demo_env_def)
  have 5: "str_of_nat (Suc (Suc 0)) = ''2''"
    by code_simp
  from record_count_error[OF 1 2 3 4, of "''blastn''" "''nt''" "1 / 100" "8 / 10"]
  show ?thesis by (simp add: 5)
qed

section \<open>The hit filter in the two tasks\<close>

lemma scan_stream_register:
  "\<forall>(t, h, q) \<in> set (all_hits rs). q \<noteq> 0 \<Longrightarrow>
   scan_stream env nm ev cov (rs, None) msa =
     Inr (register env nm msa (filter (\<lambda>(t, h, q). spec_keeps env ev cov q h) (all_hits rs)))"
  by (simp add: scan_stream_def scan_records_register)

text \<open>The rows of \<open>BlastSubject\<close> that the loop over \<open>msa.all_sequences()\<close> writes for the
  job of id \<open>i\<close>.\<close>

definition subject_rows :: "nat \<Rightarrow> (string \<times> string) list \<Rightarrow> (string \<times> string \<times> nat) list" where
  "subject_rows i ps = map (\<lambda>(n, sq). (n, sq, i)) ps"

lemma save_subjects_run:
  assumes "\<forall>n. db_fault env n = None" and "var_b s = Some b"
  shows "save_subjects env ps s =
           (Inr (), s\<lparr>ndb := ndb s + length ps,
                      subjects := subjects s @ subject_rows (run_id b) ps\<rparr>)"
  using assms(2)
proof (induction ps arbitrary: s)
  case Nil
  show ?case by (simp add: ret_def subject_rows_def)
next
  case (Cons p ps)
  obtain n sq where p: "p = (n, sq)" by (cases p)
  define t where "t = s\<lparr>ndb := ndb s + 1, subjects := subjects s @ [(n, sq, run_id b)]\<rparr>"
  have "var_b t = Some b" using Cons.prems by (simp add: t_def)
  from Cons.IH[OF this]
  have "save_subjects env ps t =
      (Inr (), s\<lparr>ndb := ndb s + length (p # ps),
                 subjects := subjects s @ subject_rows (run_id b) (p # ps)\<rparr>)"
    by (simp add: t_def p subject_rows_def)
  moreover have "save_subjects env (p # ps) s = save_subjects env ps t"
    using Cons.prems assms(1)
    by (simp add: p bnd_def get_b_def db_op_def modify_def t_def)
  ultimately show ?case by simp
qed

lemma valid_save_subjects_all:
  assumes "\<forall>n. db_fault env n = None"
  shows "valid (\<lambda>s. \<exists>b. var_b s = Some b
                  \<and> Q () (s\<lparr>ndb := ndb s + length ps,
                              subjects := subjects s @ subject_rows (run_id b) ps\<rparr>))
           (save_subjects env ps) Q E"
proof (rule validI)
  fix s
  assume "\<exists>b. var_b s = Some b
      \<and> Q () (s\<lparr>ndb := ndb s + length ps, subjects := subjects s @ subject_rows (run_id b) ps\<rparr>)"
  then obtain b where b: "var_b s = Some b"
    and q: "Q () (s\<lparr>ndb := ndb s + length ps, subjects := subjects s @ subject_rows (run_id b) ps\<rparr>)"
    by blast
  show "case save_subjects env ps s of (Inl e, s') \<Rightarrow> E e s' | (Inr x, s') \<Rightarrow> Q x s'"
    unfolding save_subjects_run[OF assms b] using q by simp
qed

lemma valid_snd: "valid P m (\<lambda>_. R) (\<lambda>_. R) \<Longrightarrow> P s \<Longrightarrow> R (snd (m s))"
  by (cases "m s") (auto simp: valid_def split: sum.splits)

lemmas wp_db = wp valid_set_error valid_save_b valid_objects_get valid_send_result_mail

lemma ncbi_body_single:
  assumes "seqio_parse env sequence = Inr [rec]"
  shows "ncbi_body env sequence prog db ev cov =
           block [ncbi_search env rec sequence prog db ev cov, ncbi_notify env]"
  unfolding ncbi_body_def ncbi_dispatch_def assms bnd_call_Inr by simp

lemma ncbi_subjects:
  assumes db: "\<forall>n. db_fault env n = None"
    and p: "seqio_parse env sequence = Inr [rec]"
    and q: "qblast env prog dbn sequence = Inr (rs, None)"
    and nz: "\<forall>(t, h, q) \<in> set (all_hits rs). q \<noteq> 0"
    and i: "run_id r0 = i"
  shows "valid (\<lambda>s. find (\<lambda>r. run_id r = i) (table s) = Some r0 \<and> subjects s = S)
           (launch_ncbi_blast env i sequence prog dbn ev cov)
           (\<lambda>_ s. subjects s = S @ subject_rows i (msa_all_sequences env
              (register env first_token (msa_new env (first_token (fa_id rec)) (fa_seq rec))
                 (filter (\<lambda>(t, h, q). spec_keeps env ev cov q h) (all_hits rs)))))
           (\<lambda>_ s. subjects s = S @ subject_rows i (msa_all_sequences env
              (register env first_token (msa_new env (first_token (fa_id rec)) (fa_seq rec))
                 (filter (\<lambda>(t, h, q). spec_keeps env ev cov q h) (all_hits rs)))))"
  unfolding launch_ncbi_blast_def ncbi_body_single[OF p] ncbi_search_def ncbi_notify_def
    submit_handler_def call_build_nj_tree_def q bnd_call_Inr scan_stream_register[OF nz]
  apply (rule valid_conseq)
   apply (rule wp_db valid_save_subjects_all[OF db])+
  apply (clarsimp simp: db i split: sum.splits)
  done


lemma poll_one_ok:
  assumes db: "\<forall>n. db_fault env n = None"
    and bt: "\<forall>b ss e. build_nj_tree env b ss \<noteq> Inl e"
    and sd: "show_dataset env (history r) (history_fileid r) = Inr (''ok'', infos)"
    and dl: "download_dataset env (history_fileid r) = Inr (rs, None)"
    and nz: "\<forall>(t, h, q) \<in> set (all_hits rs). q \<noteq> 0"
  shows "valid (\<lambda>s. subjects s = S) (poll_one env r)
           (\<lambda>_ s. subjects s = S @ subject_rows (run_id r) (msa_all_sequences env
              (register env newick_clean (msa_new env (query_id r) (query_seq r))
                 (filter (\<lambda>(t, h, q). spec_keeps env (evalue r) (coverage r) q h)
                    (all_hits rs)))))
           (\<lambda>_ _. False)"
  unfolding poll_one_def poll_update_def poll_notify_def poll_finish_def call_build_nj_tree_def
  apply (rule valid_conseq)
   apply (rule wp_db valid_save_subjects_all[OF db])+
  apply (clarsimp simp: db sd dl scan_stream_register[OF nz] bt split: sum.splits)
  done

lemma poll_one_other:
  assumes db: "\<forall>n. db_fault env n = None"
    and sd: "show_dataset env (history r) (history_fileid r) = Inr (st, infos)"
    and st: "st \<noteq> ''ok''"
  shows "valid (\<lambda>s. subjects s = S) (poll_one env r) (\<lambda>_ s. subjects s = S) (\<lambda>_ _. False)"
  unfolding poll_one_def poll_update_def poll_notify_def poll_finish_def call_build_nj_tree_def
  apply (rule valid_conseq)
   apply (rule wp_db valid_save_subjects_all[OF db])+
  apply (clarsimp simp: db sd st)
  done

text \<open>The rows that \<open>checkblastruns\<close> polls.\<close>

definition polled :: "blastrun list \<Rightarrow> blastrun list" where
  "polled rows =
     filter (\<lambda>b. \<not> deleted b \<and> server b = PASTEUR \<and> (status b = PENDING \<or> status b = RUNNING))
       rows"

text \<open>The remote server answers for the record \<open>r\<close>: the state of its dataset is given,
  and when the state is \<open>ok\<close> the result is downloaded and parsed to the end, no record
  with a hit having the query length zero.\<close>

definition poll_answers :: "'m env \<Rightarrow> blastrun \<Rightarrow> bool" where
  "poll_answers env r =
     (case show_dataset env (history r) (history_fileid r) of
        Inl e \<Rightarrow> False
      | Inr (st, infos) \<Rightarrow>
          st = ''ok'' \<longrightarrow>
            (case download_dataset env (history_fileid r) of
               Inl e \<Rightarrow> False
             | Inr (rs, x) \<Rightarrow> x = None \<and> (\<forall>(t, h, q) \<in> set (all_hits rs). q \<noteq> 0)))"

text \<open>The rows of \<open>BlastSubject\<close> expected for the record \<open>r\<close> in a poll cycle: when the
  state of its dataset is \<open>ok\<close>, the query and the hits of the result that the filter of
  the specification keeps under the thresholds stored in \<open>r\<close>, named by \<open>newick_clean\<close>.\<close>

definition poll_rows :: "'m env \<Rightarrow> blastrun \<Rightarrow> (string \<times> string \<times> nat) list" where
  "poll_rows env r =
     (case show_dataset env (history r) (history_fileid r) of
        Inl e \<Rightarrow> []
      | Inr (st, infos) \<Rightarrow>
          if st = ''ok''
          then (case download_dataset env (history_fileid r) of
                  Inl e \<Rightarrow> []
                | Inr (rs, x) \<Rightarrow>
                    subject_rows (run_id r) (msa_all_sequences env
                      (register env newick_clean (msa_new env (query_id r) (query_seq r))
                         (filter (\<lambda>(t, h, q). spec_keeps env (evalue r) (coverage r) q h)
                            (all_hits rs)))))
          else [])"

lemma poll_one_rows:
  assumes db: "\<forall>n. db_fault env n = None"
    and bt: "\<forall>b ss e. build_nj_tree env b ss \<noteq> Inl e"
    and a: "poll_answers env r"
  shows "valid (\<lambda>s. subjects s = S) (poll_one env r)
           (\<lambda>_ s. subjects s = S @ poll_rows env r) (\<lambda>_ _. False)"
proof -
  from a obtain st infos where
    sd: "show_dataset env (history r) (history_fileid r) = Inr (st, infos)"
    by (auto simp: poll_answers_def split: sum.splits)
  show ?thesis
  proof (cases "st = ''ok''")
    case False
    from poll_one_other[OF db sd False, of S] show ?thesis
      using False by (simp add: poll_rows_def sd)
  next
    case True
    with a sd obtain rs where
      dl: "download_dataset env (history_fileid r) = Inr (rs, None)"
      and nz: "\<forall>(t, h, q) \<in> set (all_hits rs). q \<noteq> 0"
      by (auto simp: poll_answers_def split: sum.splits)
    from poll_one_ok[OF db bt sd[unfolded True] dl nz, of S] show ?thesis
      by (simp add: poll_rows_def sd True dl)
  qed
qed

lemma poll_loop_rows:
  assumes db: "\<forall>n. db_fault env n = None"
    and bt: "\<forall>b ss e. build_nj_tree env b ss \<noteq> Inl e"
  shows "\<forall>r \<in> set rows. poll_answers env r \<Longrightarrow>
         valid (\<lambda>s. subjects s = S) (poll_loop env rows)
           (\<lambda>_ s. subjects s = S @ concat (map (poll_rows env) rows)) (\<lambda>_ _. False)"
proof (induction rows arbitrary: S)
  case Nil
  show ?case by (simp add: valid_def ret_def)
next
  case (Cons r rows)
  have 1: "valid (\<lambda>s. subjects s = S) (poll_one env r)
      (\<lambda>_ s. subjects s = S @ poll_rows env r) (\<lambda>_ _. False)"
    using Cons.prems by (intro poll_one_rows[OF db bt]) simp
  have 2: "valid (\<lambda>s. subjects s = S @ poll_rows env r) (poll_loop env rows)
      (\<lambda>_ s. subjects s = S @ concat (map (poll_rows env) (r # rows))) (\<lambda>_ _. False)"
    using Cons.IH[of "S @ poll_rows env r"] Cons.prems by simp
  show ?case
    unfolding poll_loop.simps by (rule valid_bnd[OF 2 1])
qed

lemma valid_poll_loop:
  assumes db: "\<forall>n. db_fault env n = None"
    and bt: "\<forall>b ss e. build_nj_tree env b ss \<noteq> Inl e"
  shows "valid (\<lambda>s. (\<forall>r \<in> set rows. poll_answers env r)
                  \<and> (\<forall>s'. subjects s' = subjects s @ concat (map (poll_rows env) rows)
                        \<longrightarrow> Q () s'))
           (poll_loop env rows) Q E"
proof (rule validI)
  fix s :: state
  assume a: "(\<forall>r \<in> set rows. poll_answers env r)
      \<and> (\<forall>s'. subjects s' = subjects s @ concat (map (poll_rows env) rows) \<longrightarrow> Q () s')"
  then have v: "valid (\<lambda>t. subjects t = subjects s) (poll_loop env rows)
      (\<lambda>_ t. subjects t = subjects s @ concat (map (poll_rows env) rows)) (\<lambda>_ _. False)"
    by (intro poll_loop_rows[OF db bt]) simp
  from valid_returns[OF v, of s] obtain s' where
    "poll_loop env rows s = (Inr (), s')"
    "subjects s' = subjects s @ concat (map (poll_rows env) rows)" by auto
  with a show "case poll_loop env rows s of (Inl e, s') \<Rightarrow> E e s' | (Inr x, s') \<Rightarrow> Q x s'"
    by simp
qed

lemma poll_subjects:
  assumes db: "\<forall>n. db_fault env n = None"
    and bt: "\<forall>b ss e. build_nj_tree env b ss \<noteq> Inl e"
    and g: "galaxy_connection env = None"
  shows "valid (\<lambda>s. \<not> lock s \<and> (\<forall>r \<in> set (polled (table s)). poll_answers env r)
                  \<and> subjects s = S \<and> table s = T)
           (checkblastruns env)
           (\<lambda>_ s. subjects s = S @ concat (map (poll_rows env) (polled T)))
           (\<lambda>_ s. subjects s = S @ concat (map (poll_rows env) (polled T)))"
  unfolding checkblastruns_def poll_body_def poll_query_def poll_handler_def release_lock_def
  apply (rule valid_conseq)
   apply (rule wp_db valid_poll_loop[OF db bt])+
  apply (clarsimp simp: db g polled_def)
  done

text \<open>
  Claim C1. Both paths register exactly the hits that the filter of the specification
  keeps, under the thresholds of the job: the expectation value is strictly below the
  e-value threshold and the fraction of the query length, as the float division gives
  it, is at least the coverage threshold.

  The three loops, for any naming \<open>nm\<close> and thresholds, register the hits kept, in their
  order (the query length of a record with a hit is not zero; the division raises
  otherwise). \<open>launch_ncbi_blast\<close>, when the record exists, the text has one sequence, the
  search answers and no database operation fails, adds to \<open>BlastSubject\<close> the sequences
  of the set built from the query and the hits kept under its arguments \<open>ev\<close> and \<open>cov\<close>,
  named by the first token of their title. A cycle of \<open>checkblastruns\<close> that takes the
  lock and in which every collaborator answers adds, for every polled record whose
  dataset is \<open>ok\<close>, the sequences of the set built from the hits kept under the
  thresholds \<open>evalue\<close> and \<open>coverage\<close> stored in that record, named by \<open>newick_clean\<close>. A
  hit whose fraction equals the coverage threshold is registered, one whose expectation
  value equals the e-value threshold is not.
\<close>

theorem hit_filter_keeps_iff:
  fixes env :: "'m env"
  shows
    "((\<forall>(t, h, q) \<in> set (all_hits rs). q \<noteq> 0) \<longrightarrow>
        scan_records env nm ev cov rs msa =
          Inr (register env nm msa
                 (filter (\<lambda>(t, h, q). spec_keeps env ev cov q h) (all_hits rs))))
   \<and> ((\<forall>n. db_fault env n = None) \<and> find (\<lambda>r. run_id r = i) (table s) \<noteq> None
        \<and> seqio_parse env sequence = Inr [rec] \<and> qblast env prog dbn sequence = Inr (rs, None)
        \<and> (\<forall>(t, h, q) \<in> set (all_hits rs). q \<noteq> 0) \<longrightarrow>
        subjects (snd (launch_ncbi_blast env i sequence prog dbn ev cov s)) =
          subjects s @ subject_rows i (msa_all_sequences env
            (register env first_token (msa_new env (first_token (fa_id rec)) (fa_seq rec))
               (filter (\<lambda>(t, h, q). spec_keeps env ev cov q h) (all_hits rs)))))
   \<and> ((\<forall>n. db_fault env n = None) \<and> (\<forall>b ss e. build_nj_tree env b ss \<noteq> Inl e)
        \<and> galaxy_connection env = None \<and> \<not> lock s
        \<and> (\<forall>r \<in> set (polled (table s)). poll_answers env r) \<longrightarrow>
        subjects (snd (checkblastruns env s)) =
          subjects s @ concat (map (poll_rows env) (polled (table s))))
   \<and> (\<forall>h ql ttl. ql \<noteq> 0 \<and> expect h < ev
            \<and> to_float env (real_of_int (align_length h) / real_of_int ql) = cov
          \<longrightarrow> scan_hsps env nm ev cov ql ttl [h] msa = Inr (msa_add_hsp env (nm ttl) h msa))
   \<and> (\<forall>h ql ttl. ql \<noteq> 0 \<and> expect h = ev
          \<longrightarrow> scan_hsps env nm ev cov ql ttl [h] msa = Inr msa)"
proof (intro conjI allI impI)
  assume "\<forall>(t, h, q) \<in> set (all_hits rs). q \<noteq> 0"
  then show "scan_records env nm ev cov rs msa =
           Inr (register env nm msa
                  (filter (\<lambda>(t, h, q). spec_keeps env ev cov q h) (all_hits rs)))"
    by (rule scan_records_register)
next
  assume a: "(\<forall>n. db_fault env n = None) \<and> find (\<lambda>r. run_id r = i) (table s) \<noteq> None
        \<and> seqio_parse env sequence = Inr [rec] \<and> qblast env prog dbn sequence = Inr (rs, None)
        \<and> (\<forall>(t, h, q) \<in> set (all_hits rs). q \<noteq> 0)"
  then obtain r0 where f: "find (\<lambda>r. run_id r = i) (table s) = Some r0" by auto
  from a have db: "\<forall>n. db_fault env n = None" and p: "seqio_parse env sequence = Inr [rec]"
    and q: "qblast env prog dbn sequence = Inr (rs, None)"
    and nz: "\<forall>(t, h, q) \<in> set (all_hits rs). q \<noteq> 0" by simp_all
  from valid_snd[OF ncbi_subjects[OF db p q nz find_run_id[OF f], of "subjects s" ev cov], of s] f
  show "subjects (snd (launch_ncbi_blast env i sequence prog dbn ev cov s)) =
          subjects s @ subject_rows i (msa_all_sequences env
            (register env first_token (msa_new env (first_token (fa_id rec)) (fa_seq rec))
               (filter (\<lambda>(t, h, q). spec_keeps env ev cov q h) (all_hits rs))))"
    by simp
next
  assume a: "(\<forall>n. db_fault env n = None) \<and> (\<forall>b ss e. build_nj_tree env b ss \<noteq> Inl e)
        \<and> galaxy_connection env = None \<and> \<not> lock s
        \<and> (\<forall>r \<in> set (polled (table s)). poll_answers env r)"
  then have db: "\<forall>n. db_fault env n = None"
    and bt: "\<forall>b ss e. build_nj_tree env b ss \<noteq> Inl e"
    and g: "galaxy_connection env = None" by simp_all
  from valid_snd[OF poll_subjects[OF db bt g, of "subjects s" "table s"], of s] a
  show "subjects (snd (checkblastruns env s)) =
          subjects s @ concat (map (poll_rows env) (polled (table s)))"
    by simp
next
  fix h :: hsp and ql :: int and ttl :: string
  assume "ql \<noteq> 0 \<and> expect h < ev
            \<and> to_float env (real_of_int (align_length h) / real_of_int ql) = cov"
  then show "scan_hsps env nm ev cov ql ttl [h] msa = Inr (msa_add_hsp env (nm ttl) h msa)"
    by (simp add: float_div_def)
next
  fix h :: hsp and ql :: int and ttl :: string
  assume "ql \<noteq> 0 \<and> expect h = ev"
  then show "scan_hsps env nm ev cov ql ttl [h] msa = Inr msa"
    by (simp add: float_div_def)
qed

definition demo_records :: "blast_record list" where
  "demo_records =
     [\<lparr>alignments =
         [\<lparr>title = ''hit1 first subject'',
           hsps = [\<lparr>expect = 1 / 1000, align_length = 80, sbjct = ''ACGA''\<rparr>,
                   \<lparr>expect = 1 / 100, align_length = 90, sbjct = ''ACGC''\<rparr>]\<rparr>,
          \<lparr>title = ''hit2 second subject'',
           hsps = [\<lparr>expect = 1 / 1000, align_length = 79, sbjct = ''ACGG''\<rparr>]\<rparr>],
       query_length = 100\<rparr>]"

text \<open>Both servers answer with \<open>demo_records\<close>.\<close>

definition hits_env :: "(string \<times> string) list env" where
  "hits_env =
     demo_env\<lparr>qblast := (\<lambda>p d q. Inr (demo_records, None)),
              download_dataset := (\<lambda>f. Inr (demo_records, None))\<rparr>"

theorem hit_filter_keeps_iff_witness:
  "scan_records hits_env first_token (1 / 100) (8 / 10) demo_records [(''query1'', ''ACGT'')]
     = Inr [(''query1'', ''ACGT''), (''hit1'', ''ACGA'')]
   \<and> subjects (snd (launch_ncbi_blast hits_env 7 ''>query1 sample'' ''blastn'' ''nt''
        (1 / 100) (8 / 10) demo_state))
     = [(''query1'', ''ACGT'', 7), (''hit1'', ''ACGA'', 7)]
   \<and> subjects (snd (checkblastruns hits_env demo_state))
     = [(''query1'', ''ACGT'', 7), (''hit1_first_subject'', ''ACGA'', 7)]
   \<and> scan_hsps hits_env first_token (1 / 100) (8 / 10) 100 ''hit1 first subject''
        [\<lparr>expect = 1 / 1000, align_length = 80, sbjct = ''ACGA''\<rparr>] [(''query1'', ''ACGT'')]
     = Inr [(''query1'', ''ACGT''), (''hit1'', ''ACGA'')]
   \<and> scan_hsps hits_env first_token (1 / 100) (8 / 10) 100 ''hit1 first subject''
        [\<lparr>expect = 1 / 100, align_length = 90, sbjct = ''ACGC''\<rparr>] [(''query1'', ''ACGT'')]
     = Inr [(''query1'', ''ACGT'')]"
proof -
  note t = hit_filter_keeps_iff[where env = hits_env and rs = demo_records
      and nm = first_token and ev = "1 / 100" and cov = "8 / 10"
      and msa = "[(''query1'', ''ACGT'')]" and i = 7 and s = demo_state
      and sequence = "''>query1 sample''" and prog = "''blastn''" and dbn = "''nt''"
      and rec = "\<lparr>fa_id = ''query1 sample'', fa_seq = ''ACGT''\<rparr>"]
  let ?hit = "(''hit1 first subject'', \<lparr>expect = 1 / 1000, align_length = 80, sbjct = ''ACGA''\<rparr>,
      100 :: int)"
  have nz: "\<forall>(t, h, q) \<in> set (all_hits demo_records). q \<noteq> 0"
    by (simp add: all_hits_def demo_records_def)
  have db: "\<forall>n. db_fault hits_env n = None"
    by (simp add: hits_env_def demo_env_def)
  have e: "msa_add_hsp hits_env = (\<lambda>n h m. msa_put n (sbjct h) m)"
    "msa_all_sequences hits_env = (\<lambda>m. m)" "msa_new hits_env = (\<lambda>i sq. [(i, sq)])"
    by (simp_all add: hits_env_def demo_env_def)
  have kept: "filter (\<lambda>(t, h, q). spec_keeps hits_env (1 / 100) (8 / 10) q h)
       (all_hits demo_records) = [?hit]"
    by (simp add: all_hits_def demo_records_def spec_keeps_def hits_env_def demo_env_def)
  have kept': "filter (\<lambda>(t, h, q). spec_keeps hits_env (1 / 100) (4 / 5) q h)
       (all_hits demo_records) = [?hit]"
    using kept by simp
  have nc: "newick_clean ''hit1 first subject'' = ''hit1_first_subject''"
    by code_simp
  have reg1: "register hits_env first_token [(''query1'', ''ACGT'')] [?hit]
      = [(''query1'', ''ACGT''), (''hit1'', ''ACGA'')]"
    by (simp add: register_def e first_token_def)
  have reg2: "register hits_env newick_clean [(''query1'', ''ACGT'')] [?hit]
      = [(''query1'', ''ACGT''), (''hit1_first_subject'', ''ACGA'')]"
    by (simp add: register_def e nc)
  have mn1: "msa_new hits_env (first_token (fa_id \<lparr>fa_id = ''query1 sample'', fa_seq = ''ACGT''\<rparr>))
      (fa_seq \<lparr>fa_id = ''query1 sample'', fa_seq = ''ACGT''\<rparr>) = [(''query1'', ''ACGT'')]"
    by (simp add: e first_token_def)
  have mn2: "msa_new hits_env (query_id demo_run) (query_seq demo_run) = [(''query1'', ''ACGT'')]"
    by (simp add: e demo_run_def)
  have 1: "scan_records hits_env first_token (1 / 100) (8 / 10) demo_records
       [(''query1'', ''ACGT'')] = Inr [(''query1'', ''ACGT''), (''hit1'', ''ACGA'')]"
    using mp[OF conjunct1[OF t] nz] unfolding kept reg1 .
  have h2: "(\<forall>n. db_fault hits_env n = None)
      \<and> find (\<lambda>r. run_id r = 7) (table demo_state) \<noteq> None
      \<and> seqio_parse hits_env ''>query1 sample''
           = Inr [\<lparr>fa_id = ''query1 sample'', fa_seq = ''ACGT''\<rparr>]
      \<and> qblast hits_env ''blastn'' ''nt'' ''>query1 sample'' = Inr (demo_records, None)
      \<and> (\<forall>(t, h, q) \<in> set (all_hits demo_records). q \<noteq> 0)"
    using nz db by (simp add: hits_env_def demo_env_def demo_state_def demo_run_def)
  have 2: "subjects (snd (launch_ncbi_blast hits_env 7 ''>query1 sample'' ''blastn'' ''nt''
        (1 / 100) (8 / 10) demo_state))
     = [(''query1'', ''ACGT'', 7), (''hit1'', ''ACGA'', 7)]"
    using mp[OF conjunct1[OF conjunct2[OF t]] h2] unfolding kept mn1 reg1
    by (simp add: subject_rows_def e demo_state_def)
  have p: "polled (table demo_state) = [demo_run]"
    by (simp add: polled_def demo_state_def demo_run_def)
  have sd: "show_dataset hits_env (history demo_run) (history_fileid demo_run) = Inr (''ok'', [])"
    and dl: "download_dataset hits_env (history_fileid demo_run) = Inr (demo_records, None)"
    by (simp_all add: hits_env_def demo_env_def)
  have h3: "(\<forall>n. db_fault hits_env n = None)
      \<and> (\<forall>b ss e. build_nj_tree hits_env b ss \<noteq> Inl e)
      \<and> galaxy_connection hits_env = None \<and> \<not> lock demo_state
      \<and> (\<forall>r \<in> set (polled (table demo_state)). poll_answers hits_env r)"
    using nz db unfolding p
    by (simp add: poll_answers_def sd dl) (simp add: hits_env_def demo_env_def demo_state_def)
  have th: "evalue demo_run = 1 / 100" "coverage demo_run = 8 / 10" "run_id demo_run = 7"
    by (simp_all add: demo_run_def)
  have r: "poll_rows hits_env demo_run
      = [(''query1'', ''ACGT'', 7), (''hit1_first_subject'', ''ACGA'', 7)]"
    unfolding poll_rows_def sd dl th mn2
    by (simp add: kept' reg2 subject_rows_def e)
  have 3: "subjects (snd (checkblastruns hits_env demo_state))
     = [(''query1'', ''ACGT'', 7), (''hit1_first_subject'', ''ACGA'', 7)]"
    using mp[OF conjunct1[OF conjunct2[OF conjunct2[OF t]]] h3] unfolding p
    by (simp add: r demo_state_def)
  have 4: "scan_hsps hits_env first_token (1 / 100) (8 / 10) 100 ''hit1 first subject''
        [\<lparr>expect = 1 / 1000, align_length = 80, sbjct = ''ACGA''\<rparr>] [(''query1'', ''ACGT'')]
     = Inr [(''query1'', ''ACGT''), (''hit1'', ''ACGA'')]"
    using conjunct1[OF conjunct2[OF conjunct2[OF conjunct2[OF t]]], rule_format,
        of 100 "\<lparr>expect = 1 / 1000, align_length = 80, sbjct = ''ACGA''\<rparr>"
           "''hit1 first subject''"]
    by (simp add: hits_env_def demo_env_def first_token_def)
  have 5: "scan_hsps hits_env first_token (1 / 100) (8 / 10) 100 ''hit1 first subject''
        [\<lparr>expect = 1 / 100, align_length = 90, sbjct = ''ACGC''\<rparr>] [(''query1'', ''ACGT'')]
     = Inr [(''query1'', ''ACGT'')]"
    using conjunct2[OF conjunct2[OF conjunct2[OF conjunct2[OF t]]], rule_format,
        of 100 "\<lparr>expect = 1 / 100, align_length = 90, sbjct = ''ACGC''\<rparr>"
           "''hit1 first subject''"]
    by simp
  from 1 2 3 4 5 show ?thesis by (intro conjI)
qed

end
